theory Spec2Isabelle
  imports Main "HOL-Library.AList" "HOL-Library.Sublist"
begin

section \<open>The populate-depth resolver of the Strapi backend\<close>

text \<open>
  This theory embeds the \<^verbatim>\<open>deepPopulate\<close> middleware of the Strapi backend
  (the TypeScript source that starts with the \<^verbatim>\<open>Options\<close> interface and ends with the
  exported middleware factory): the stop predicate \<^verbatim>\<open>shouldStopAtCurrentDepth\<close>, the
  recursive builder \<^verbatim>\<open>getDeepPopulate\<close>, the URL helper \<^verbatim>\<open>extractPathSegment\<close> and the
  middleware itself.

  Conventions of the embedding.
  \<^item> The functions take the table \<^verbatim>\<open>DEPTH_CONFIG\<close> as a parameter \<open>cfg\<close>, so that the
    properties hold for every content of the table; \<open>DEPTH_CONFIG\<close> is the table of the
    source.
  \<^item> \<^verbatim>\<open>Object.entries\<close> lists every attribute name once; the properties that read a field
    of the result by its name assume the names of a model \<open>distinct\<close>.
  \<^item> A plain JavaScript object used as a dictionary is an association list of its own
    properties, in the order in which JavaScript enumerates them: the keys that are array
    indices (canonical decimal numbers below \<open>2\<^sup>3\<^sup>2 - 1\<close>) in ascending order, then the
    other keys in insertion order. Writing \<^verbatim>\<open>acc[k] = v\<close> replaces the value of an existing
    key in place and puts a new key at its place in that order (\<open>js_set\<close>).
  \<^item> Reading \<^verbatim>\<open>obj[k]\<close> on an object literal also finds the members that every object
    inherits from \<^verbatim>\<open>Object.prototype\<close> (\<^verbatim>\<open>constructor\<close>, \<^verbatim>\<open>toString\<close>, ...). The read
    \<^verbatim>\<open>DEPTH_CONFIG.pathDepths[pathKey]\<close> is keyed by the joined path, which for a path of one
    segment is a bare attribute name, so \<open>js_get\<close> models the inherited members.
    The reads \<^verbatim>\<open>excludeFields[uid]\<close> and \<^verbatim>\<open>includeOnlyFields[contextKey]\<close> are keyed by
    a schema UID (\<^verbatim>\<open>api::page.page\<close>, \<^verbatim>\<open>admin::user\<close>, \<^verbatim>\<open>shared.button\<close>), which
    contains \<^verbatim>\<open>::\<close> or a dot, and by \<^verbatim>\<open>`${last}.${attributeName}`\<close>, which contains a
    dot; no member of \<^verbatim>\<open>Object.prototype\<close> has such a name, so there the own properties
    are all there is.
  \<^item> Attribute names and component UIDs are the keys written into the result; the name
    \<^verbatim>\<open>__proto__\<close>, whose assignment would set the prototype instead of a property, is not
    among them.
  \<^item> Depths are natural numbers: the traversal starts at 0 and only ever adds 1.
  \<^item> \<^verbatim>\<open>console.log\<close> and \<^verbatim>\<open>strapi.log\<close> calls produce no value and are left out.
\<close>

subsection \<open>Data\<close>

text \<open>
  The values the builder produces: the string \<^verbatim>\<open>'*'\<close>, the boolean \<^verbatim>\<open>true\<close> (in a
  field selection) and plain objects.
\<close>

datatype json = JStar | JTrue | JObj "(string \<times> json) list"

text \<open>
  A schema attribute, by its \<^verbatim>\<open>type\<close> tag. A relation carries \<^verbatim>\<open>attribute.relation\<close> and
  \<^verbatim>\<open>attribute.target\<close> (which the code tests for being falsy), a component its UID, a
  dynamic zone \<^verbatim>\<open>attribute.components\<close> (which the code defaults to the empty array);
  every other tag falls to the \<^verbatim>\<open>default\<close> branch of the switch.
\<close>

datatype attribute =
    Relation string "string option"
  | Media
  | Component string
  | DynamicZone "string list option"
  | Primitive string

text \<open>\<^verbatim>\<open>Object.entries(model.attributes)\<close>: the attributes in declaration order.\<close>

record model =
  attributes :: "(string \<times> attribute) list"

text \<open>
  The \<^verbatim>\<open>Options\<close> interface; every field is optional. The type parameter is what
  \<^verbatim>\<open>visitedUIDs\<close> holds: the set itself where the builder is read as a function of values,
  the address of the \<^verbatim>\<open>Set\<close> object where the store is explicit.
\<close>

record 'v Options =
  relationalFields :: "string list option"
  maxDepth :: "nat option"
  currentDepth :: "nat option"
  visitedUIDs :: "'v option"
  depthLimits :: "(string \<times> nat) list option"

text \<open>The shape of \<^verbatim>\<open>DEPTH_CONFIG\<close>, and the table as the source ships it.\<close>

record depth_config =
  shallowPopulate :: "string list"
  mediumPopulate :: "string list"
  pathDepths :: "(string \<times> nat) list"
  excludeFields :: "(string \<times> string list) list"
  includeOnlyFields :: "(string \<times> string list) list"

definition DEPTH_CONFIG :: depth_config where
  "DEPTH_CONFIG = \<lparr>
     shallowPopulate = [''api::user.user'', ''api::role.role'', ''api::permission.permission''],
     mediumPopulate = [],
     pathDepths = [],
     excludeFields = [],
     includeOnlyFields = [] \<rparr>"

text \<open>
  What the middleware imports from the CMS and from \<^verbatim>\<open>pluralize\<close>: schema introspection
  \<^verbatim>\<open>strapi.getModel\<close>, \<^verbatim>\<open>contentTypes.isVisibleAttribute\<close>, the two constants of
  \<^verbatim>\<open>contentTypes.constants\<close>, and \<^verbatim>\<open>pluralize.singular\<close>. They are parameters of the
  embedding.
\<close>

record env =
  getModel :: "string \<Rightarrow> model option"
  isVisibleAttribute :: "model \<Rightarrow> string \<Rightarrow> bool"
  CREATED_BY_ATTRIBUTE :: string
  UPDATED_BY_ATTRIBUTE :: string
  singular :: "string \<Rightarrow> string"

subsection \<open>Property reads and writes\<close>

text \<open>The names that every object literal inherits from \<^verbatim>\<open>Object.prototype\<close>.\<close>

definition object_prototype_keys :: "string list" where
  "object_prototype_keys =
     [''constructor'', ''__defineGetter__'', ''__defineSetter__'', ''hasOwnProperty'',
      ''__lookupGetter__'', ''__lookupSetter__'', ''isPrototypeOf'', ''propertyIsEnumerable'',
      ''toString'', ''valueOf'', ''__proto__'', ''toLocaleString'']"

datatype 'a js_property = Undefined | Own 'a | Inherited

definition js_get :: "(string \<times> 'a) list \<Rightarrow> string \<Rightarrow> 'a js_property" where
  "js_get obj key =
     (case map_of obj key of
        Some v \<Rightarrow> Own v
      | None \<Rightarrow> if key \<in> set object_prototype_keys then Inherited else Undefined)"

text \<open>
  A key is an array index when it is the canonical decimal form of a number from 0 to
  \<open>2\<^sup>3\<^sup>2 - 2\<close>: digits only, no leading zero.
\<close>

definition isDigit :: "char \<Rightarrow> bool" where
  "isDigit c = (48 \<le> (of_char c :: nat) \<and> (of_char c :: nat) \<le> 57)"

definition digitsValue :: "string \<Rightarrow> int" where
  "digitsValue key = fold (\<lambda>c n. 10 * n + ((of_char c :: int) - 48)) key 0"

definition arrayIndex :: "string \<Rightarrow> int option" where
  "arrayIndex key =
     (if key \<noteq> [] \<and> list_all isDigit key \<and> (key = ''0'' \<or> hd key \<noteq> CHR ''0'')
         \<and> digitsValue key < 4294967295
      then Some (digitsValue key) else None)"

text \<open>A new array index goes before the first key that is no smaller array index.\<close>

fun insertIndex :: "int \<Rightarrow> string \<Rightarrow> json \<Rightarrow> (string \<times> json) list \<Rightarrow> (string \<times> json) list" where
  "insertIndex i key v [] = [(key, v)]"
| "insertIndex i key v (p # ps) =
     (case arrayIndex (fst p) of
        Some j \<Rightarrow> if j < i then p # insertIndex i key v ps else (key, v) # p # ps
      | None \<Rightarrow> (key, v) # p # ps)"

text \<open>
  \<^verbatim>\<open>acc[key] = v\<close>: an existing key keeps its place, a new key that is no array index is
  appended (both are \<open>AList.update\<close>), a new array index is inserted among the indices.
\<close>

definition js_set :: "(string \<times> json) list \<Rightarrow> string \<Rightarrow> json \<Rightarrow> (string \<times> json) list" where
  "js_set acc key v =
     (case arrayIndex key of
        None \<Rightarrow> AList.update key v acc
      | Some i \<Rightarrow> if key \<in> fst ` set acc then AList.update key v acc
                 else insertIndex i key v acc)"

subsection \<open>The stop predicate\<close>

text \<open>\<^verbatim>\<open>path.join('.')\<close>\<close>

fun join :: "string list \<Rightarrow> string" where
  "join [] = []"
| "join [s] = s"
| "join (s # t # ss) = s @ ''.'' @ join (t # ss)"

definition getPathKey :: "string list \<Rightarrow> string" where
  "getPathKey path = join path"

text \<open>
  \<^verbatim>\<open>shouldStopAtCurrentDepth\<close>. The first test is \<^verbatim>\<open>pathDepths[pathKey] !== undefined\<close>: an
  own entry is compared with the depth; an inherited member is not \<^verbatim>\<open>undefined\<close> either,
  and \<^verbatim>\<open>currentDepth >= f\<close> for a function or object \<^verbatim>\<open>f\<close> compares with \<^verbatim>\<open>NaN\<close> and is
  false.
\<close>

definition shouldStopAtCurrentDepth :: "depth_config \<Rightarrow> string \<Rightarrow> nat \<Rightarrow> string list \<Rightarrow> bool" where
  "shouldStopAtCurrentDepth cfg uid depth path =
     (let pathKey = getPathKey path in
      case js_get (pathDepths cfg) pathKey of
        Own n \<Rightarrow> depth \<ge> n
      | Inherited \<Rightarrow> False
      | Undefined \<Rightarrow>
          if uid \<in> set (shallowPopulate cfg) then depth \<ge> 1
          else if uid \<in> set (mediumPopulate cfg) then depth \<ge> 2
          else depth \<ge> 3)"

text \<open>
  The precedence as the specification words it, over the entries of the table alone; it is
  compared with the code below.
\<close>

definition shouldStop_spec :: "depth_config \<Rightarrow> string \<Rightarrow> nat \<Rightarrow> string list \<Rightarrow> bool" where
  "shouldStop_spec cfg uid depth path =
     (case map_of (pathDepths cfg) (getPathKey path) of
        Some override \<Rightarrow> depth \<ge> override
      | None \<Rightarrow>
          if uid \<in> set (shallowPopulate cfg) then depth \<ge> 1
          else if uid \<in> set (mediumPopulate cfg) then depth \<ge> 2
          else depth \<ge> 3)"

subsection \<open>The directive builder\<close>

text \<open>\<^verbatim>\<open>{ populate: p }\<close> and \<^verbatim>\<open>{ on: variants }\<close>\<close>

definition populate :: "json \<Rightarrow> json" where
  "populate p = JObj [(''populate'', p)]"

definition on :: "(string \<times> json) list \<Rightarrow> json" where
  "on variants = JObj [(''on'', JObj variants)]"

text \<open>\<^verbatim>\<open>typeof nested === 'object' && Object.keys(nested).length > 0\<close>\<close>

fun nonEmptyObject :: "json \<Rightarrow> bool" where
  "nonEmptyObject (JObj kvs) = (kvs \<noteq> [])"
| "nonEmptyObject _ = False"

definition nestedOrWildcard :: "json \<Rightarrow> json" where
  "nestedOrWildcard nested = (if nonEmptyObject nested then populate nested else populate JStar)"

text \<open>\<^verbatim>\<open>attribute.relation.toLowerCase().startsWith('morph')\<close>\<close>

definition toLowerCase :: "string \<Rightarrow> string" where
  "toLowerCase s = map (\<lambda>c. if 65 \<le> (of_char c :: nat) \<and> (of_char c :: nat) \<le> 90
                              then char_of (of_char c + (32::nat)) else c) s"

definition isMorphRelation :: "string \<Rightarrow> bool" where
  "isMorphRelation relation = prefix ''morph'' (toLowerCase relation)"

text \<open>
  The defaults \<^verbatim>\<open>{ maxDepth: 3, currentDepth: 0, visitedUIDs: new Set(), ...opts }\<close>, field
  by field, and the options of a recursive call
  \<^verbatim>\<open>{ ...options, currentDepth: options.currentDepth + 1, visitedUIDs: newVisitedUIDs }\<close>.
\<close>

definition optCurrentDepth :: "'v Options \<Rightarrow> nat" where
  "optCurrentDepth opts = (case currentDepth opts of None \<Rightarrow> 0 | Some d \<Rightarrow> d)"

definition optVisitedUIDs :: "string set Options \<Rightarrow> string set" where
  "optVisitedUIDs opts = (case visitedUIDs opts of None \<Rightarrow> {} | Some s \<Rightarrow> s)"

definition optMaxDepth :: "'v Options \<Rightarrow> nat" where
  "optMaxDepth opts = (case maxDepth opts of None \<Rightarrow> 3 | Some d \<Rightarrow> d)"

definition descend :: "'v Options \<Rightarrow> 'v \<Rightarrow> 'v Options" where
  "descend opts newVisitedUIDs =
     opts\<lparr> maxDepth := Some (optMaxDepth opts),
           currentDepth := Some (optCurrentDepth opts + 1),
           visitedUIDs := Some newVisitedUIDs \<rparr>"

text \<open>
  \<^verbatim>\<open>DEPTH_CONFIG.excludeFields[uid] && DEPTH_CONFIG.excludeFields[uid].includes(attributeName)\<close>
\<close>

definition excluded :: "depth_config \<Rightarrow> string \<Rightarrow> string \<Rightarrow> bool" where
  "excluded cfg uid attributeName =
     (case map_of (excludeFields cfg) uid of None \<Rightarrow> False | Some fs \<Rightarrow> attributeName \<in> set fs)"

text \<open>
  \<^verbatim>\<open>path.length > 0 ? `${path[path.length - 1]}.${attributeName}` : null\<close>, and the entry
  of \<^verbatim>\<open>includeOnlyFields\<close> under that key, if the key is not null and the entry exists.
\<close>

definition contextKey :: "string list \<Rightarrow> string \<Rightarrow> string option" where
  "contextKey path attributeName =
     (if length path > 0 then Some (last path @ ''.'' @ attributeName) else None)"

definition includeOnly :: "depth_config \<Rightarrow> string list \<Rightarrow> string \<Rightarrow> string list option" where
  "includeOnly cfg path attributeName =
     (case contextKey path attributeName of
        None \<Rightarrow> None
      | Some k \<Rightarrow> map_of (includeOnlyFields cfg) k)"

text \<open>The simplified population \<^verbatim>\<open>{ populate: { f1: true, f2: true, ... } }\<close>.\<close>

definition simplified :: "string list \<Rightarrow> json" where
  "simplified fieldsToInclude =
     populate (JObj (fold (\<lambda>field fields. js_set fields field JTrue) fieldsToInclude []))"

text \<open>
  The recursion of the builder is bounded by the depth: past the largest cap of the table
  (at least the default 3) every call stops, except on a path of one segment whose key is an
  inherited member, and such a path is left after one more call. \<open>callMeasure\<close>
  decreases at every recursive call.
\<close>

definition depthBound :: "depth_config \<Rightarrow> nat" where
  "depthBound cfg = fold max (map snd (pathDepths cfg)) 3"

definition callMeasure :: "depth_config \<Rightarrow> 'v Options \<Rightarrow> string list \<Rightarrow> nat" where
  "callMeasure cfg opts path = (depthBound cfg - optCurrentDepth opts) + (2 - length path)"

lemma fold_max_ge: "(a::nat) \<le> fold max xs a"
  by (induction xs arbitrary: a) (auto intro: order_trans [OF max.cobounded2])

lemma fold_max_mem: "(x::nat) \<in> set xs \<Longrightarrow> x \<le> fold max xs a"
proof (induction xs arbitrary: a)
  case Nil
  then show ?case by simp
next
  case (Cons y ys)
  show ?case
  proof (cases "x = y")
    case True
    have "x \<le> max y a" using True by simp
    also have "\<dots> \<le> fold max ys (max y a)" by (rule fold_max_ge)
    finally show ?thesis by simp
  next
    case False
    then have "x \<in> set ys" using Cons.prems by simp
    then show ?thesis using Cons.IH by simp
  qed
qed

lemma depthBound_ge3: "3 \<le> depthBound cfg"
  unfolding depthBound_def by (rule fold_max_ge)

lemma depthBound_override: "map_of (pathDepths cfg) k = Some n \<Longrightarrow> n \<le> depthBound cfg"
  unfolding depthBound_def
  by (rule fold_max_mem) (force dest: map_of_SomeD)

lemma dot_in_join: "2 \<le> length path \<Longrightarrow> CHR ''.'' \<in> set (join path)"
  by (induction path rule: join.induct) auto

lemma prototype_key_no_dot: "k \<in> set object_prototype_keys \<Longrightarrow> CHR ''.'' \<notin> set k"
  by (auto simp: object_prototype_keys_def)

lemma inherited_short_path:
  "js_get obj (getPathKey path) = Inherited \<Longrightarrow> length path < 2"
proof (rule ccontr)
  assume inh: "js_get obj (getPathKey path) = Inherited" and "\<not> length path < 2"
  then have "CHR ''.'' \<in> set (join path)" by (simp add: dot_in_join)
  moreover have "join path \<in> set object_prototype_keys"
    using inh by (auto simp: js_get_def getPathKey_def split: option.splits if_splits)
  ultimately show False using prototype_key_no_dot by blast
qed

lemma not_stop_measure:
  assumes "\<not> shouldStopAtCurrentDepth cfg uid d path"
  shows "d < depthBound cfg \<or> length path < 2"
proof (cases "js_get (pathDepths cfg) (getPathKey path)")
  case Undefined
  then have "d < 3" using assms
    by (auto simp: shouldStopAtCurrentDepth_def split: if_splits)
  then show ?thesis using depthBound_ge3 [of cfg] by simp
next
  case (Own n)
  then have "d < n" using assms by (auto simp: shouldStopAtCurrentDepth_def)
  moreover have "n \<le> depthBound cfg"
    using Own by (auto simp: js_get_def split: option.splits if_splits intro: depthBound_override)
  ultimately show ?thesis by simp
next
  case Inherited
  then show ?thesis by (simp add: inherited_short_path)
qed

lemma optCurrentDepth_descend [simp]: "optCurrentDepth (descend opts v) = Suc (optCurrentDepth opts)"
  by (simp add: optCurrentDepth_def descend_def)

lemma optVisitedUIDs_descend [simp]: "optVisitedUIDs (descend opts v) = v"
  by (simp add: optVisitedUIDs_def descend_def)

lemma relationalFields_descend [simp]: "relationalFields (descend opts v) = relationalFields opts"
  by (simp add: descend_def)

lemma callMeasure_descend:
  assumes "\<not> shouldStopAtCurrentDepth cfg uid (optCurrentDepth opts) path"
    and "length path < length path'"
  shows "callMeasure cfg (descend opts v) path' < callMeasure cfg opts path"
  using not_stop_measure [OF assms(1)] assms(2)
  by (auto simp: callMeasure_def)


text \<open>
  \<^verbatim>\<open>getDeepPopulate\<close>. The \<^verbatim>\<open>reduce\<close> over the attributes is a \<open>fold\<close> from the empty
  object; \<open>insert uid (optVisitedUIDs opts)\<close> is \<^verbatim>\<open>newVisitedUIDs\<close>. For a relation
  without target the code evaluates the stop predicate and then tests the target, and
  assigns \<^verbatim>\<open>{ populate: '*' }\<close> on both ways.
\<close>

function getDeepPopulate :: "env \<Rightarrow> depth_config \<Rightarrow> string \<Rightarrow> string set Options \<Rightarrow> string list \<Rightarrow> json" where
  "getDeepPopulate env cfg uid opts path =
     (if shouldStopAtCurrentDepth cfg uid (optCurrentDepth opts) path then JStar
      else if uid \<in> optVisitedUIDs opts \<and> optCurrentDepth opts > 0 then JStar
      else case getModel env uid of
        None \<Rightarrow> JStar
      | Some model \<Rightarrow>
          JObj (fold (\<lambda>(attributeName, attribute) acc.
            if excluded cfg uid attributeName then acc
            else case includeOnly cfg path attributeName of
              Some fieldsToInclude \<Rightarrow> js_set acc attributeName (simplified fieldsToInclude)
            | None \<Rightarrow>
               (case attribute of
                  Relation relation target \<Rightarrow>
                    if isMorphRelation relation then acc
                    else if attributeName = CREATED_BY_ATTRIBUTE env
                          \<or> attributeName = UPDATED_BY_ATTRIBUTE env then acc
                    else if isVisibleAttribute env model attributeName
                          \<and> (case relationalFields opts of None \<Rightarrow> True
                               | Some fs \<Rightarrow> attributeName \<in> set fs)
                    then (case target of
                            None \<Rightarrow> js_set acc attributeName (populate JStar)
                          | Some targetUID \<Rightarrow>
                              if shouldStopAtCurrentDepth cfg targetUID
                                   (optCurrentDepth opts + 1) (path @ [attributeName])
                              then js_set acc attributeName (populate JStar)
                              else if targetUID \<noteq> []
                              then js_set acc attributeName (nestedOrWildcard
                                     (getDeepPopulate env cfg targetUID
                                        (descend opts (insert uid (optVisitedUIDs opts)))
                                        (path @ [attributeName])))
                              else js_set acc attributeName (populate JStar))
                    else acc
                | Media \<Rightarrow> js_set acc attributeName (populate JStar)
                | Component component \<Rightarrow>
                    js_set acc attributeName (nestedOrWildcard
                      (getDeepPopulate env cfg component
                         (descend opts (insert uid (optVisitedUIDs opts)))
                         (path @ [attributeName])))
                | DynamicZone components \<Rightarrow>
                    js_set acc attributeName (on
                      (fold (\<lambda>componentUID acc'.
                         js_set acc' componentUID (nestedOrWildcard
                           (getDeepPopulate env cfg componentUID
                              (descend opts (insert uid (optVisitedUIDs opts)))
                              (path @ [attributeName, componentUID]))))
                       (case components of None \<Rightarrow> [] | Some cs \<Rightarrow> cs) []))
                | Primitive _ \<Rightarrow> acc))
            (attributes model) []))"
  by pat_completeness auto
termination
  by (relation "measure (\<lambda>(env, cfg, uid, opts, path). callMeasure cfg opts path)")
     (auto intro: callMeasure_descend)

declare getDeepPopulate.simps [simp del]


text \<open>The default argument \<^verbatim>\<open>opts = {}\<close>.\<close>

definition defaults :: "'v Options" where
  "defaults = \<lparr> relationalFields = None, maxDepth = None, currentDepth = None,
                visitedUIDs = None, depthLimits = None \<rparr>"

text \<open>
  The two reducers of the builder by name: the inner one of a dynamic zone and the outer one
  over the attributes. \<open>attributeEntry\<close> is the value the outer reducer assigns to
  \<^verbatim>\<open>acc[attributeName]\<close>, or \<open>None\<close> where it returns \<^verbatim>\<open>acc\<close> untouched.
\<close>

definition variantsOf :: "env \<Rightarrow> depth_config \<Rightarrow> string \<Rightarrow> string set Options \<Rightarrow> string list
    \<Rightarrow> string \<Rightarrow> string list \<Rightarrow> (string \<times> json) list" where
  "variantsOf env cfg uid opts path attributeName components =
     fold (\<lambda>componentUID acc'.
        js_set acc' componentUID (nestedOrWildcard
          (getDeepPopulate env cfg componentUID
             (descend opts (insert uid (optVisitedUIDs opts)))
             (path @ [attributeName, componentUID]))))
      components []"

definition attributeStep :: "env \<Rightarrow> depth_config \<Rightarrow> string \<Rightarrow> string set Options \<Rightarrow> string list
    \<Rightarrow> model \<Rightarrow> string \<times> attribute \<Rightarrow> (string \<times> json) list \<Rightarrow> (string \<times> json) list" where
  "attributeStep env cfg uid opts path model = (\<lambda>(attributeName, attribute) acc.
            if excluded cfg uid attributeName then acc
            else case includeOnly cfg path attributeName of
              Some fieldsToInclude \<Rightarrow> js_set acc attributeName (simplified fieldsToInclude)
            | None \<Rightarrow>
               (case attribute of
                  Relation relation target \<Rightarrow>
                    if isMorphRelation relation then acc
                    else if attributeName = CREATED_BY_ATTRIBUTE env
                          \<or> attributeName = UPDATED_BY_ATTRIBUTE env then acc
                    else if isVisibleAttribute env model attributeName
                          \<and> (case relationalFields opts of None \<Rightarrow> True
                               | Some fs \<Rightarrow> attributeName \<in> set fs)
                    then (case target of
                            None \<Rightarrow> js_set acc attributeName (populate JStar)
                          | Some targetUID \<Rightarrow>
                              if shouldStopAtCurrentDepth cfg targetUID
                                   (optCurrentDepth opts + 1) (path @ [attributeName])
                              then js_set acc attributeName (populate JStar)
                              else if targetUID \<noteq> []
                              then js_set acc attributeName (nestedOrWildcard
                                     (getDeepPopulate env cfg targetUID
                                        (descend opts (insert uid (optVisitedUIDs opts)))
                                        (path @ [attributeName])))
                              else js_set acc attributeName (populate JStar))
                    else acc
                | Media \<Rightarrow> js_set acc attributeName (populate JStar)
                | Component component \<Rightarrow>
                    js_set acc attributeName (nestedOrWildcard
                      (getDeepPopulate env cfg component
                         (descend opts (insert uid (optVisitedUIDs opts)))
                         (path @ [attributeName])))
                | DynamicZone components \<Rightarrow>
                    js_set acc attributeName (on
                      (variantsOf env cfg uid opts path attributeName
                       (case components of None \<Rightarrow> [] | Some cs \<Rightarrow> cs)))
                | Primitive _ \<Rightarrow> acc))"

definition attributeEntry :: "env \<Rightarrow> depth_config \<Rightarrow> string \<Rightarrow> string set Options \<Rightarrow> string list
    \<Rightarrow> model \<Rightarrow> string \<Rightarrow> attribute \<Rightarrow> json option" where
  "attributeEntry env cfg uid opts path model attributeName attribute =
     (if excluded cfg uid attributeName then None
      else case includeOnly cfg path attributeName of
        Some fieldsToInclude \<Rightarrow> Some (simplified fieldsToInclude)
      | None \<Rightarrow>
         (case attribute of
            Relation relation target \<Rightarrow>
              if isMorphRelation relation then None
              else if attributeName = CREATED_BY_ATTRIBUTE env
                    \<or> attributeName = UPDATED_BY_ATTRIBUTE env then None
              else if isVisibleAttribute env model attributeName
                    \<and> (case relationalFields opts of None \<Rightarrow> True
                         | Some fs \<Rightarrow> attributeName \<in> set fs)
              then (case target of
                      None \<Rightarrow> Some (populate JStar)
                    | Some targetUID \<Rightarrow>
                        if shouldStopAtCurrentDepth cfg targetUID
                             (optCurrentDepth opts + 1) (path @ [attributeName])
                        then Some (populate JStar)
                        else if targetUID \<noteq> []
                        then Some (nestedOrWildcard
                               (getDeepPopulate env cfg targetUID
                                  (descend opts (insert uid (optVisitedUIDs opts)))
                                  (path @ [attributeName])))
                        else Some (populate JStar))
              else None
          | Media \<Rightarrow> Some (populate JStar)
          | Component component \<Rightarrow>
              Some (nestedOrWildcard
                (getDeepPopulate env cfg component
                   (descend opts (insert uid (optVisitedUIDs opts)))
                   (path @ [attributeName])))
          | DynamicZone components \<Rightarrow>
              Some (on (variantsOf env cfg uid opts path attributeName
                         (case components of None \<Rightarrow> [] | Some cs \<Rightarrow> cs)))
          | Primitive _ \<Rightarrow> None))"

subsection \<open>The builder with the visited sets in a store\<close>

text \<open>
  The source keeps the visited UIDs in \<^verbatim>\<open>Set\<close> objects, which are shared by reference
  and changed in place by \<^verbatim>\<open>add\<close>. Here the store is explicit: a list of the \<^verbatim>\<open>Set\<close>
  objects allocated so far, an address is an index, \<^verbatim>\<open>new Set(...)\<close> appends and
  \<^verbatim>\<open>add\<close> updates in place. \<open>getDeepPopulate_store\<close> is the same function with the same
  allocations as the source: the \<^verbatim>\<open>new Set<string>()\<close> of the defaults (evaluated at every
  call, used when \<^verbatim>\<open>opts\<close> brings no set), then \<^verbatim>\<open>new Set(options.visitedUIDs)\<close> and
  \<^verbatim>\<open>newVisitedUIDs.add(uid)\<close>, and the address of that copy handed to every recursive
  call.
\<close>

type_synonym store = "string set list"

definition newSet :: "store \<Rightarrow> string set \<Rightarrow> nat \<times> store" where
  "newSet h s = (length h, h @ [s])"

definition addTo :: "store \<Rightarrow> nat \<Rightarrow> string \<Rightarrow> store" where
  "addTo h a x = h[a := insert x (h ! a)]"

function getDeepPopulate_store :: "env \<Rightarrow> depth_config \<Rightarrow> string \<Rightarrow> nat Options \<Rightarrow> string list
    \<Rightarrow> store \<Rightarrow> json \<times> store" where
  "getDeepPopulate_store env cfg uid opts path h =
     (case newSet h {} of (emptySet, h0) \<Rightarrow>
      (let visited = (case visitedUIDs opts of None \<Rightarrow> emptySet | Some a \<Rightarrow> a) in
      if shouldStopAtCurrentDepth cfg uid (optCurrentDepth opts) path then (JStar, h0)
      else if uid \<in> h0 ! visited \<and> optCurrentDepth opts > 0 then (JStar, h0)
      else case getModel env uid of
        None \<Rightarrow> (JStar, h0)
      | Some model \<Rightarrow>
         (case newSet h0 (h0 ! visited) of (newVisitedUIDs, h1) \<Rightarrow>
          (case fold (\<lambda>(attributeName, attribute) (acc, h).
            if excluded cfg uid attributeName then (acc, h)
            else case includeOnly cfg path attributeName of
              Some fieldsToInclude \<Rightarrow> (js_set acc attributeName (simplified fieldsToInclude), h)
            | None \<Rightarrow>
               (case attribute of
                  Relation relation target \<Rightarrow>
                    if isMorphRelation relation then (acc, h)
                    else if attributeName = CREATED_BY_ATTRIBUTE env
                          \<or> attributeName = UPDATED_BY_ATTRIBUTE env then (acc, h)
                    else if isVisibleAttribute env model attributeName
                          \<and> (case relationalFields opts of None \<Rightarrow> True
                               | Some fs \<Rightarrow> attributeName \<in> set fs)
                    then (case target of
                            None \<Rightarrow> (js_set acc attributeName (populate JStar), h)
                          | Some targetUID \<Rightarrow>
                              if shouldStopAtCurrentDepth cfg targetUID
                                   (optCurrentDepth opts + 1) (path @ [attributeName])
                              then (js_set acc attributeName (populate JStar), h)
                              else if targetUID \<noteq> []
                              then (case getDeepPopulate_store env cfg targetUID
                                        (descend opts newVisitedUIDs) (path @ [attributeName]) h of
                                      (nestedPopulate, h') \<Rightarrow>
                                        (js_set acc attributeName (nestedOrWildcard nestedPopulate), h'))
                              else (js_set acc attributeName (populate JStar), h))
                    else (acc, h)
                | Media \<Rightarrow> (js_set acc attributeName (populate JStar), h)
                | Component component \<Rightarrow>
                    (case getDeepPopulate_store env cfg component
                         (descend opts newVisitedUIDs) (path @ [attributeName]) h of
                       (componentPopulate, h') \<Rightarrow>
                         (js_set acc attributeName (nestedOrWildcard componentPopulate), h'))
                | DynamicZone components \<Rightarrow>
                    (case fold (\<lambda>componentUID (acc', h).
                         case getDeepPopulate_store env cfg componentUID
                              (descend opts newVisitedUIDs) (path @ [attributeName, componentUID]) h of
                           (componentPopulate, h') \<Rightarrow>
                             (js_set acc' componentUID (nestedOrWildcard componentPopulate), h'))
                       (case components of None \<Rightarrow> [] | Some cs \<Rightarrow> cs) ([], h) of
                      (populatedComponents, h') \<Rightarrow>
                        (js_set acc attributeName (on populatedComponents), h'))
                | Primitive _ \<Rightarrow> (acc, h)))
            (attributes model) ([], addTo h1 newVisitedUIDs uid) of
            (acc, h') \<Rightarrow> (JObj acc, h')))))"
  by pat_completeness auto
termination
  by (relation "measure (\<lambda>(env, cfg, uid, opts, path, h). callMeasure cfg opts path)")
     (auto intro: callMeasure_descend)

declare getDeepPopulate_store.simps [simp del]

text \<open>
  Reading the options of the store version as options of the value version: the address in
  \<^verbatim>\<open>visitedUIDs\<close> is replaced by the set it points to. An address is valid when the
  store holds an object there; references of a running program always are.
\<close>

definition readOptions :: "store \<Rightarrow> nat Options \<Rightarrow> string set Options" where
  "readOptions h opts =
     \<lparr> relationalFields = relationalFields opts, maxDepth = maxDepth opts,
       currentDepth = currentDepth opts,
       visitedUIDs = map_option (\<lambda>a. h ! a) (visitedUIDs opts),
       depthLimits = depthLimits opts \<rparr>"

definition validOptions :: "store \<Rightarrow> nat Options \<Rightarrow> bool" where
  "validOptions h opts = (case visitedUIDs opts of None \<Rightarrow> True | Some a \<Rightarrow> a < length h)"

text \<open>The two reducers of the store version by name.\<close>

definition variantsOf_store :: "env \<Rightarrow> depth_config \<Rightarrow> nat Options \<Rightarrow> string list \<Rightarrow> string
    \<Rightarrow> nat \<Rightarrow> string list \<Rightarrow> store \<Rightarrow> (string \<times> json) list \<times> store" where
  "variantsOf_store env cfg opts path attributeName newVisitedUIDs components h =
     fold (\<lambda>componentUID (acc', h).
             case getDeepPopulate_store env cfg componentUID
                    (descend opts newVisitedUIDs) (path @ [attributeName, componentUID]) h of
               (componentPopulate, h') \<Rightarrow>
                 (js_set acc' componentUID (nestedOrWildcard componentPopulate), h'))
          components ([], h)"

definition attributeStep_store :: "env \<Rightarrow> depth_config \<Rightarrow> string \<Rightarrow> nat Options \<Rightarrow> string list
    \<Rightarrow> model \<Rightarrow> nat \<Rightarrow> string \<times> attribute \<Rightarrow> (string \<times> json) list \<times> store
    \<Rightarrow> (string \<times> json) list \<times> store" where
  "attributeStep_store env cfg uid opts path model newVisitedUIDs =
     (\<lambda>(attributeName, attribute) (acc, h).
            if excluded cfg uid attributeName then (acc, h)
            else case includeOnly cfg path attributeName of
              Some fieldsToInclude \<Rightarrow> (js_set acc attributeName (simplified fieldsToInclude), h)
            | None \<Rightarrow>
               (case attribute of
                  Relation relation target \<Rightarrow>
                    if isMorphRelation relation then (acc, h)
                    else if attributeName = CREATED_BY_ATTRIBUTE env
                          \<or> attributeName = UPDATED_BY_ATTRIBUTE env then (acc, h)
                    else if isVisibleAttribute env model attributeName
                          \<and> (case relationalFields opts of None \<Rightarrow> True
                               | Some fs \<Rightarrow> attributeName \<in> set fs)
                    then (case target of
                            None \<Rightarrow> (js_set acc attributeName (populate JStar), h)
                          | Some targetUID \<Rightarrow>
                              if shouldStopAtCurrentDepth cfg targetUID
                                   (optCurrentDepth opts + 1) (path @ [attributeName])
                              then (js_set acc attributeName (populate JStar), h)
                              else if targetUID \<noteq> []
                              then (case getDeepPopulate_store env cfg targetUID
                                        (descend opts newVisitedUIDs) (path @ [attributeName]) h of
                                      (nestedPopulate, h') \<Rightarrow>
                                        (js_set acc attributeName (nestedOrWildcard nestedPopulate), h'))
                              else (js_set acc attributeName (populate JStar), h))
                    else (acc, h)
                | Media \<Rightarrow> (js_set acc attributeName (populate JStar), h)
                | Component component \<Rightarrow>
                    (case getDeepPopulate_store env cfg component
                         (descend opts newVisitedUIDs) (path @ [attributeName]) h of
                       (componentPopulate, h') \<Rightarrow>
                         (js_set acc attributeName (nestedOrWildcard componentPopulate), h'))
                | DynamicZone components \<Rightarrow>
                    (case variantsOf_store env cfg opts path attributeName newVisitedUIDs
                            (case components of None \<Rightarrow> [] | Some cs \<Rightarrow> cs) h of
                      (populatedComponents, h') \<Rightarrow>
                        (js_set acc attributeName (on populatedComponents), h'))
                | Primitive _ \<Rightarrow> (acc, h)))"

subsection \<open>The middleware\<close>

text \<open>\<^verbatim>\<open>s.includes(t)\<close>\<close>

fun includes_str :: "string \<Rightarrow> string \<Rightarrow> bool" where
  "includes_str [] t = (t = [])"
| "includes_str (c # s) t = (prefix t (c # s) \<or> includes_str s t)"

text \<open>
  \<^verbatim>\<open>extractPathSegment\<close>: the part of the URL before the first \<^verbatim>\<open>?\<close>, matched against
  \<^verbatim>\<open>/^\/api\/([^/?]+)(?:\/|\/\d+)?$/\<close>. The group takes every character up to the next
  slash; what follows must be nothing, a slash, or a slash and digits. No match gives the
  empty string.
\<close>

definition extractPathSegment :: "string \<Rightarrow> string" where
  "extractPathSegment u =
     (let path = takeWhile (\<lambda>c. c \<noteq> CHR ''?'') u in
      if prefix ''/api/'' path then
        (let rest = drop 5 path;
             segment = takeWhile (\<lambda>c. c \<noteq> CHR ''/'') rest;
             tail = dropWhile (\<lambda>c. c \<noteq> CHR ''/'') rest
         in if segment \<noteq> [] \<and>
               (tail = [] \<or> tail = ''/'' \<or> (tl tail \<noteq> [] \<and> list_all isDigit (tl tail)))
            then segment else [])
      else [])"

text \<open>
  \<^verbatim>\<open>ctx.query.populate\<close> is a string or a structured value of the query parser, or absent.
  \<^verbatim>\<open>!ctx.query.populate\<close> holds when it is absent or the empty string.
\<close>

datatype populate_param = PString string | PDirective json

fun supplied :: "populate_param option \<Rightarrow> bool" where
  "supplied None = False"
| "supplied (Some (PString str)) = (str \<noteq> [])"
| "supplied (Some (PDirective d)) = True"

record ctx =
  request_url :: string
  request_method :: string
  query_populate :: "populate_param option"

text \<open>
  What the middleware leaves behind: the directive it assigned to \<^verbatim>\<open>ctx.query.populate\<close>
  (\<open>None\<close> when the assignment is not reached), the value of \<^verbatim>\<open>ctx.query.populate\<close>
  afterwards, and the number of times it awaited \<^verbatim>\<open>next()\<close>. The builder of this
  embedding is total and raises nothing, so the \<^verbatim>\<open>catch\<close> around it has nothing to handle.
\<close>

record outcome =
  injected :: "json option"
  populate_after :: "populate_param option"
  next_calls :: nat

definition passOn :: "ctx \<Rightarrow> outcome" where
  "passOn c = \<lparr> injected = None, populate_after = query_populate c, next_calls = 1 \<rparr>"

definition middleware :: "env \<Rightarrow> depth_config \<Rightarrow> ctx \<Rightarrow> outcome" where
  "middleware env cfg c =
     (if prefix ''/api/'' (request_url c) \<and> request_method c = ''GET''
         \<and> \<not> supplied (query_populate c)
         \<and> \<not> includes_str (request_url c) ''/api/users''
         \<and> \<not> includes_str (request_url c) ''/api/seo''
      then
        (let contentType = extractPathSegment (request_url c) in
         if contentType = [] then passOn c
         else
           (let singularName = singular env contentType in
            if singularName = [] then passOn c
            else
              (let uid = ''api::'' @ singularName @ ''.'' @ singularName;
                   populateConfig = getDeepPopulate env cfg uid defaults []
               in \<lparr> injected = Some populateConfig,
                    populate_after = Some (PDirective populateConfig),
                    next_calls = 1 \<rparr>)))
      else passOn c)"

text \<open>
  The gate as the specification words it, to be compared with the one of the source: the
  target namespace of a request is the first segment of its path after \<^verbatim>\<open>/api/\<close>, the
  excluded namespaces are \<^verbatim>\<open>users\<close> and \<^verbatim>\<open>seo\<close>, and the resolver applies when the method
  is a read, the path is under the content API, the caller supplied no populate directive
  and the target namespace is not an excluded one.
\<close>

definition targetNamespace_spec :: "string \<Rightarrow> string" where
  "targetNamespace_spec u =
     takeWhile (\<lambda>c. c \<noteq> CHR ''/'') (drop 5 (takeWhile (\<lambda>c. c \<noteq> CHR ''?'') u))"

definition excludedNamespaces_spec :: "string list" where
  "excludedNamespaces_spec = [''users'', ''seo'']"

definition applies_spec :: "ctx \<Rightarrow> bool" where
  "applies_spec c =
     (request_method c = ''GET''
      \<and> prefix ''/api/'' (request_url c)
      \<and> (query_populate c = None \<or> query_populate c = Some (PString []))
      \<and> targetNamespace_spec (request_url c) \<notin> set excludedNamespaces_spec)"

subsection \<open>Shapes of directives\<close>

text \<open>
  A directive all of whose fields are the wildcard populate \<^verbatim>\<open>{ populate: '*' }\<close>: no field
  has a nested directive of its own.
\<close>

definition wildcardFields :: "json \<Rightarrow> bool" where
  "wildcardFields d =
     (case d of JObj kvs \<Rightarrow> list_all (\<lambda>(k, v). v = populate JStar) kvs | _ \<Rightarrow> True)"

text \<open>
  The attributes that may be populated at all: not a scalar, not a polymorphic relation and
  not one of the two provenance relations.
\<close>

definition populatable :: "env \<Rightarrow> string \<Rightarrow> attribute \<Rightarrow> bool" where
  "populatable env attributeName attribute =
     (case attribute of
        Relation relation target \<Rightarrow>
          \<not> isMorphRelation relation
          \<and> attributeName \<noteq> CREATED_BY_ATTRIBUTE env \<and> attributeName \<noteq> UPDATED_BY_ATTRIBUTE env
      | Primitive t \<Rightarrow> False
      | _ \<Rightarrow> True)"

text \<open>
  \<open>directiveFor env uid d\<close>: read against the schema, starting at the type \<open>uid\<close>, the
  directive \<open>d\<close> has at every level only keys that name populatable attributes of the type
  at that level. A relation leads to its target, a component to its type, a dynamic zone to
  one of its components.
\<close>

inductive directiveFor :: "env \<Rightarrow> string \<Rightarrow> json \<Rightarrow> bool"
  and entryFor :: "env \<Rightarrow> attribute \<Rightarrow> json \<Rightarrow> bool"
  for env :: env where
  leaf: "directiveFor env uid JStar"
| fields: "getModel env uid = Some m \<Longrightarrow>
     \<forall>k v. (k, v) \<in> set kvs \<longrightarrow>
       (\<exists>a. (k, a) \<in> set (attributes m) \<and> populatable env k a \<and> entryFor env a v) \<Longrightarrow>
     directiveFor env uid (JObj kvs)"
| wildcard: "entryFor env a (populate JStar)"
| nested_relation: "directiveFor env target d \<Longrightarrow>
     entryFor env (Relation relation (Some target)) (populate d)"
| nested_component: "directiveFor env component d \<Longrightarrow>
     entryFor env (Component component) (populate d)"
| variants: "\<forall>c e. (c, e) \<in> set vs \<longrightarrow>
       c \<in> set (case components of None \<Rightarrow> [] | Some cs \<Rightarrow> cs)
       \<and> (\<exists>d. e = populate d \<and> directiveFor env c d) \<Longrightarrow>
     entryFor env (DynamicZone components) (on vs)"

subsection \<open>A schema to evaluate on\<close>

text \<open>
  The three components the repository declares (\<^verbatim>\<open>dynamic-zone.cta\<close>,
  \<^verbatim>\<open>dynamic-zone.hero\<close>, \<^verbatim>\<open>shared.button\<close>) and three content types around them: a page
  with a dynamic zone, an article that points to its author, to itself and, under the
  attribute name \<^verbatim>\<open>constructor\<close>, to a user once more, and the user.
\<close>

definition demoModels :: "string \<Rightarrow> model option" where
  "demoModels uid =
    (if uid = ''dynamic-zone.cta'' \<or> uid = ''dynamic-zone.hero'' then
       Some \<lparr> attributes = [(''ctas'', Component ''shared.button''),
                             (''heading'', Primitive ''string''),
                             (''sub_heading'', Primitive ''string'')] \<rparr>
     else if uid = ''shared.button'' then
       Some \<lparr> attributes = [(''target'', Primitive ''enumeration''),
                             (''text'', Primitive ''string''),
                             (''url'', Primitive ''string''),
                             (''variant'', Primitive ''enumeration'')] \<rparr>
     else if uid = ''api::page.page'' then
       Some \<lparr> attributes = [(''slug'', Primitive ''string''),
                             (''content'', DynamicZone (Some [''dynamic-zone.hero'', ''dynamic-zone.cta''])),
                             (''createdBy'', Relation ''oneToOne'' (Some ''admin::user'')),
                             (''related'', Relation ''morphToMany'' None)] \<rparr>
     else if uid = ''api::article.article'' then
       Some \<lparr> attributes = [(''title'', Primitive ''string''),
                             (''cover'', Media),
                             (''author'', Relation ''manyToOne'' (Some ''api::user.user'')),
                             (''constructor'', Relation ''manyToOne'' (Some ''api::user.user'')),
                             (''next'', Relation ''oneToOne'' (Some ''api::article.article''))] \<rparr>
     else if uid = ''api::user.user'' then
       Some \<lparr> attributes = [(''username'', Primitive ''string''),
                             (''articles'', Relation ''oneToMany'' (Some ''api::article.article''))] \<rparr>
     else None)"

definition demoEnv :: env where
  "demoEnv = \<lparr> getModel = demoModels,
               isVisibleAttribute = (\<lambda>model attributeName. True),
               CREATED_BY_ATTRIBUTE = ''createdBy'',
               UPDATED_BY_ATTRIBUTE = ''updatedBy'',
               singular = (\<lambda>word. if word = ''pages'' then ''page''
                                  else if word = ''articles'' then ''article''
                                  else if word = ''users'' then ''user''
                                  else if word = ''ghosts'' then ''ghost''
                                  else word) \<rparr>"

text \<open>
  Five requests: one for the collection of pages, one whose path is too deep to match, one
  for the collection of users, one for the collection of articles whose query string
  mentions \<^verbatim>\<open>/api/users\<close>, and one for a collection named \<^verbatim>\<open>seoul\<close>.
\<close>

definition getPages :: ctx where
  "getPages = \<lparr> request_url = ''/api/pages'', request_method = ''GET'',
                query_populate = None \<rparr>"

definition getTeam :: ctx where
  "getTeam = \<lparr> request_url = ''/api/pages/about/team'', request_method = ''GET'',
               query_populate = None \<rparr>"

definition getUsers :: ctx where
  "getUsers = \<lparr> request_url = ''/api/users'', request_method = ''GET'',
                query_populate = None \<rparr>"

definition getArticlesRef :: ctx where
  "getArticlesRef = \<lparr> request_url = ''/api/articles?ref=/api/users'', request_method = ''GET'',
                      query_populate = None \<rparr>"

definition getSeoul :: ctx where
  "getSeoul = \<lparr> request_url = ''/api/seoul'', request_method = ''GET'',
                query_populate = None \<rparr>"

section \<open>Properties\<close>

subsection \<open>Unfolding the builder\<close>

lemma getDeepPopulate_expand:
  "getDeepPopulate env cfg uid opts path =
     (if shouldStopAtCurrentDepth cfg uid (optCurrentDepth opts) path then JStar
      else if uid \<in> optVisitedUIDs opts \<and> optCurrentDepth opts > 0 then JStar
      else case getModel env uid of
        None \<Rightarrow> JStar
      | Some model \<Rightarrow> JObj (fold (attributeStep env cfg uid opts path model) (attributes model) []))"
  unfolding attributeStep_def variantsOf_def by (rule getDeepPopulate.simps)

lemma attributeStep_entry:
  "attributeStep env cfg uid opts path model (attributeName, attribute) acc =
     (case attributeEntry env cfg uid opts path model attributeName attribute of
        None \<Rightarrow> acc
      | Some v \<Rightarrow> js_set acc attributeName v)"
  by (simp add: attributeStep_def attributeEntry_def split: option.splits attribute.splits)

lemma attributeStep_fold:
  "fold (attributeStep env cfg uid opts path model) attrs acc0 =
   fold (\<lambda>(n, a) acc. case attributeEntry env cfg uid opts path model n a of
                         None \<Rightarrow> acc | Some v \<Rightarrow> js_set acc n v) attrs acc0"
  by (rule arg_cong [where f = "\<lambda>f. fold f attrs acc0"]) (auto simp: fun_eq_iff attributeStep_entry)

lemma fold_entries_cong:
  assumes "\<And>n a. (n, a) \<in> set attrs \<Longrightarrow> f n a = g n a"
  shows "fold (\<lambda>(n, a) acc. case f n a of None \<Rightarrow> acc | Some v \<Rightarrow> js_set acc n v) attrs acc0
       = fold (\<lambda>(n, a) acc. case g n a of None \<Rightarrow> acc | Some v \<Rightarrow> js_set acc n v) attrs acc0"
  using assms by (induction attrs arbitrary: acc0) auto

subsection \<open>The stop predicate and the precedence of the specification\<close>

lemma shouldStop_precedence:
  assumes "getPathKey path \<notin> set object_prototype_keys
           \<or> map_of (pathDepths cfg) (getPathKey path) \<noteq> None"
  shows "shouldStopAtCurrentDepth cfg uid depth path = shouldStop_spec cfg uid depth path"
  using assms
  by (auto simp: shouldStopAtCurrentDepth_def shouldStop_spec_def js_get_def split: option.splits)

lemma shouldStop_inherited:
  assumes "getPathKey path \<in> set object_prototype_keys"
    and "map_of (pathDepths cfg) (getPathKey path) = None"
  shows "\<not> shouldStopAtCurrentDepth cfg uid depth path"
  using assms by (simp add: shouldStopAtCurrentDepth_def js_get_def)

text \<open>
  Claim C3. The stop predicate follows the first-match precedence of the specification
  (path override, shallow set, medium set, default 3) on every path whose key is not the
  name of an inherited member (\<open>shouldStop_precedence\<close>). On a path of one segment such
  as \<^verbatim>\<open>['constructor']\<close> the code finds the inherited member, takes it for an override and
  answers false at every depth: for the shallow type \<^verbatim>\<open>api::user.user\<close> at depth 1 the
  precedence says stop, the code does not. In the directive of an article the two relations
  to the user then differ: \<^verbatim>\<open>author\<close> is the wildcard populate, \<^verbatim>\<open>constructor\<close> is
  populated with the fields of the user.
\<close>

theorem shouldStop_inherited_path_key:
  "shouldStop_spec DEPTH_CONFIG ''api::user.user'' 1 [''constructor'']
   \<and> \<not> shouldStopAtCurrentDepth DEPTH_CONFIG ''api::user.user'' 1 [''constructor'']
   \<and> getDeepPopulate demoEnv DEPTH_CONFIG ''api::article.article'' defaults [] =
       JObj [(''cover'', populate JStar),
             (''author'', populate JStar),
             (''constructor'', populate (JObj [(''articles'', populate JStar)])),
             (''next'', populate JStar)]"
  by code_simp

subsection \<open>Unknown types\<close>

text \<open>
  Claim C7. When schema introspection returns nothing for the type identifier, the builder
  returns the wildcard leaf, at every depth, on every path and with every visited set. The
  builder is a total function: it has no other outcome than a directive.
\<close>

theorem unknown_type_wildcard:
  assumes "getModel env uid = None"
  shows "getDeepPopulate env cfg uid opts path = JStar"
  using assms by (simp add: getDeepPopulate_expand)

theorem unknown_type_wildcard_witness:
  "getModel demoEnv ''api::ghost.ghost'' = None
   \<and> getDeepPopulate demoEnv DEPTH_CONFIG ''api::ghost.ghost'' defaults [] = JStar"
proof -
  have none: "getModel demoEnv ''api::ghost.ghost'' = None"
    by (simp add: demoEnv_def demoModels_def)
  show ?thesis
    using none unknown_type_wildcard [OF none, of DEPTH_CONFIG defaults "[]"] by simp
qed

subsection \<open>The option maxDepth\<close>

lemma optCurrentDepth_maxDepth [simp]:
  "optCurrentDepth (opts\<lparr>maxDepth := md\<rparr>) = optCurrentDepth opts"
  by (simp add: optCurrentDepth_def)

lemma optVisitedUIDs_maxDepth [simp]:
  "optVisitedUIDs (opts\<lparr>maxDepth := md\<rparr>) = optVisitedUIDs opts"
  by (simp add: optVisitedUIDs_def)

lemma descend_maxDepth:
  "descend (opts\<lparr>maxDepth := md\<rparr>) v
     = (descend opts v)\<lparr>maxDepth := Some (optMaxDepth (opts\<lparr>maxDepth := md\<rparr>))\<rparr>"
  by (simp add: descend_def)

lemma maxDepth_irrelevant:
  "getDeepPopulate env cfg uid (opts\<lparr>maxDepth := md\<rparr>) path = getDeepPopulate env cfg uid opts path"
proof (induction env cfg uid opts path arbitrary: md rule: getDeepPopulate.induct)
  case (1 env cfg uid opts path)
  let ?v = "insert uid (optVisitedUIDs opts)"
  have rec: "getDeepPopulate env cfg t (descend (opts\<lparr>maxDepth := md\<rparr>) ?v) p
           = getDeepPopulate env cfg t (descend opts ?v) p"
    if "\<And>y. getDeepPopulate env cfg t ((descend opts ?v)\<lparr>maxDepth := y\<rparr>) p
          = getDeepPopulate env cfg t (descend opts ?v) p" for t p
    using that by (simp add: descend_maxDepth)
  show ?case
  proof (cases "shouldStopAtCurrentDepth cfg uid (optCurrentDepth opts) path
      \<or> (uid \<in> optVisitedUIDs opts \<and> optCurrentDepth opts > 0) \<or> getModel env uid = None")
    case True
    then show ?thesis by (auto simp: getDeepPopulate_expand)
  next
    case False
    then obtain m where m: "getModel env uid = Some m" by auto
    from False have ns: "\<not> shouldStopAtCurrentDepth cfg uid (optCurrentDepth opts) path"
      and nv: "\<not> (uid \<in> optVisitedUIDs opts \<and> optCurrentDepth opts > 0)" by auto
    have entry: "attributeEntry env cfg uid (opts\<lparr>maxDepth := md\<rparr>) path m n a
               = attributeEntry env cfg uid opts path m n a"
      if na: "(n, a) \<in> set (attributes m)" for n a
    proof (cases "excluded cfg uid n \<or> includeOnly cfg path n \<noteq> None")
      case True
      then show ?thesis by (auto simp: attributeEntry_def)
    next
      case ne: False
      then have ne1: "\<not> excluded cfg uid n" and ne2: "includeOnly cfg path n = None" by auto
      show ?thesis
      proof (cases a)
        case (Relation rel target)
        show ?thesis
          using ne Relation "1.IH"(1) [OF ns nv m na refl ne1 ne2 Relation]
          by (auto simp: attributeEntry_def intro!: arg_cong [where f = nestedOrWildcard] rec
                   split: option.splits)
      next
        case (Component c)
        show ?thesis
          using ne Component "1.IH"(2) [OF ns nv m na refl ne1 ne2 Component]
          by (auto simp: attributeEntry_def intro!: arg_cong [where f = nestedOrWildcard] rec)
      next
        case (DynamicZone cs)
        have "variantsOf env cfg uid (opts\<lparr>maxDepth := md\<rparr>) path n
                (case cs of None \<Rightarrow> [] | Some cs \<Rightarrow> cs)
            = variantsOf env cfg uid opts path n (case cs of None \<Rightarrow> [] | Some cs \<Rightarrow> cs)"
          unfolding variantsOf_def
        proof (rule fold_cong [OF refl refl])
          fix c assume c: "c \<in> set (case cs of None \<Rightarrow> [] | Some cs \<Rightarrow> cs)"
          have "getDeepPopulate env cfg c (descend (opts\<lparr>maxDepth := md\<rparr>) ?v) (path @ [n, c])
              = getDeepPopulate env cfg c (descend opts ?v) (path @ [n, c])"
            by (rule rec) (rule "1.IH"(3) [OF ns nv m na refl ne1 ne2 DynamicZone c])
          then show "(\<lambda>acc'. js_set acc' c (nestedOrWildcard (getDeepPopulate env cfg c
                        (descend (opts\<lparr>maxDepth := md\<rparr>)
                           (insert uid (optVisitedUIDs (opts\<lparr>maxDepth := md\<rparr>))))
                        (path @ [n, c]))))
                   = (\<lambda>acc'. js_set acc' c (nestedOrWildcard (getDeepPopulate env cfg c
                        (descend opts ?v) (path @ [n, c]))))"
            by simp
        qed
        then show ?thesis using ne DynamicZone by (auto simp: attributeEntry_def)
      next
        case Media
        then show ?thesis using ne2 by (simp add: attributeEntry_def)
      next
        case (Primitive t)
        then show ?thesis using ne2 by (simp add: attributeEntry_def)
      qed
    qed
    show ?thesis
      using False m
      by (simp add: getDeepPopulate_expand attributeStep_fold fold_entries_cong [OF entry])
  qed
qed

text \<open>
  Claim C10. The builder returns the same directive for any two values of the option
  \<^verbatim>\<open>maxDepth\<close> (absent, which defaults to 3, or any number): the traversal never reads it,
  and the depth is limited by the table of \<^verbatim>\<open>DEPTH_CONFIG\<close> alone.
\<close>

theorem maxDepth_never_consulted:
  "getDeepPopulate env cfg uid (opts\<lparr>maxDepth := a\<rparr>) path
     = getDeepPopulate env cfg uid (opts\<lparr>maxDepth := b\<rparr>) path"
  by (simp add: maxDepth_irrelevant)


subsection \<open>The result as a map\<close>

lemma set_insertIndex: "set (insertIndex i key v acc) = insert (key, v) (set acc)"
  by (induction acc) (auto split: option.splits)

lemma map_of_insertIndex:
  "key \<notin> fst ` set acc \<Longrightarrow> map_of (insertIndex i key v acc) = (map_of acc)(key \<mapsto> v)"
proof (induction acc)
  case Nil
  then show ?case by simp
next
  case (Cons p acc)
  obtain k w where p: "p = (k, w)" by (cases p)
  from Cons.prems p have ne: "k \<noteq> key" and nin: "key \<notin> fst ` set acc" by auto
  show ?case
    using Cons.IH [OF nin] ne p by (auto simp: fun_upd_twist split: option.splits)
qed

lemma distinct_insertIndex:
  "key \<notin> fst ` set acc \<Longrightarrow> distinct (map fst acc)
     \<Longrightarrow> distinct (map fst (insertIndex i key v acc))"
proof (induction acc)
  case Nil
  then show ?case by simp
next
  case (Cons p acc)
  then show ?case
    by (auto simp: set_insertIndex image_iff split: option.splits)
qed

lemma set_update: "set (AList.update k v acc) \<subseteq> insert (k, v) (set acc)"
  by (induction acc) auto

lemma map_of_js_set: "map_of (js_set acc k v) = (map_of acc)(k \<mapsto> v)"
  by (simp add: js_set_def update_conv' map_of_insertIndex split: option.splits)

lemma keys_js_set: "fst ` set (js_set acc k v) = insert k (fst ` set acc)"
  by (auto simp: js_set_def dom_update set_insertIndex split: option.splits)

lemma distinct_js_set: "distinct (map fst acc) \<Longrightarrow> distinct (map fst (js_set acc k v))"
  by (simp add: js_set_def distinct_update distinct_insertIndex split: option.splits)

lemma set_js_set: "set (js_set acc k v) \<subseteq> insert (k, v) (set acc)"
  using set_update [of k v acc]
  by (auto simp: js_set_def set_insertIndex split: option.splits)

lemma map_of_fold_entries:
  assumes "distinct (map fst attrs)"
  shows "map_of (fold (\<lambda>(n, a) acc. case f n a of None \<Rightarrow> acc | Some v \<Rightarrow> js_set acc n v) attrs acc0) k
       = (case map_of attrs k of
            None \<Rightarrow> map_of acc0 k
          | Some a \<Rightarrow> (case f k a of None \<Rightarrow> map_of acc0 k | Some v \<Rightarrow> Some v))"
  using assms
proof (induction attrs arbitrary: acc0)
  case Nil
  then show ?case by simp
next
  case (Cons p attrs)
  obtain n a where p: "p = (n, a)" by (cases p)
  from Cons.prems p have d: "distinct (map fst attrs)" and nin: "n \<notin> fst ` set attrs" by auto
  from nin have none: "map_of attrs n = None" by (simp add: map_of_eq_None_iff)
  show ?case
    using Cons.IH [OF d] none p
    by (auto simp: map_of_js_set split: option.splits)
qed

lemma map_of_fold_variants:
  "map_of (fold (\<lambda>c acc. js_set acc c (g c)) cs acc0) k
     = (if k \<in> set cs then Some (g k) else map_of acc0 k)"
  by (induction cs arbitrary: acc0) (auto simp: map_of_js_set)

lemma keys_fold_variants:
  "fst ` set (fold (\<lambda>c acc. js_set acc c (g c)) cs acc0) = set cs \<union> fst ` set acc0"
  by (induction cs arbitrary: acc0) (auto simp: keys_js_set)

lemma distinct_fold_variants:
  "distinct (map fst acc0) \<Longrightarrow> distinct (map fst (fold (\<lambda>c acc. js_set acc c (g c)) cs acc0))"
  by (induction cs arbitrary: acc0) (auto simp: distinct_js_set)

lemma getDeepPopulate_fields:
  assumes "\<not> shouldStopAtCurrentDepth cfg uid (optCurrentDepth opts) path"
    and "\<not> (uid \<in> optVisitedUIDs opts \<and> optCurrentDepth opts > 0)"
    and "getModel env uid = Some m"
    and "distinct (map fst (attributes m))"
  obtains kvs where "getDeepPopulate env cfg uid opts path = JObj kvs"
    and "\<And>k. map_of kvs k = (case map_of (attributes m) k of
                                None \<Rightarrow> None
                              | Some a \<Rightarrow> attributeEntry env cfg uid opts path m k a)"
proof
  let ?kvs = "fold (attributeStep env cfg uid opts path m) (attributes m) []"
  show "getDeepPopulate env cfg uid opts path = JObj ?kvs"
    using assms by (simp add: getDeepPopulate_expand)
  show "map_of ?kvs k = (case map_of (attributes m) k of
                                None \<Rightarrow> None
                              | Some a \<Rightarrow> attributeEntry env cfg uid opts path m k a)" for k
    by (simp add: attributeStep_fold map_of_fold_entries [OF assms(4)] split: option.splits)
qed

lemma relation_entry:
  assumes "\<not> excluded cfg uid name" and "includeOnly cfg path name = None"
    and "\<not> isMorphRelation relation"
    and "name \<noteq> CREATED_BY_ATTRIBUTE env" and "name \<noteq> UPDATED_BY_ATTRIBUTE env"
    and "isVisibleAttribute env m name"
    and "case relationalFields opts of None \<Rightarrow> True | Some fs \<Rightarrow> name \<in> set fs"
  shows "attributeEntry env cfg uid opts path m name (Relation relation (Some target)) =
     (if shouldStopAtCurrentDepth cfg target (optCurrentDepth opts + 1) (path @ [name])
      then Some (populate JStar)
      else if target \<noteq> []
      then Some (nestedOrWildcard (getDeepPopulate env cfg target
                   (descend opts (insert uid (optVisitedUIDs opts))) (path @ [name])))
      else Some (populate JStar))"
  using assms by (simp add: attributeEntry_def)

lemma nestedOrWildcard_JStar [simp]: "nestedOrWildcard JStar = populate JStar"
  by (simp add: nestedOrWildcard_def)

lemma nestedOrWildcard_populate:
  "\<exists>d'. nestedOrWildcard d = populate d' \<and> (d' = d \<or> d' = JStar)"
  by (auto simp: nestedOrWildcard_def)

subsection \<open>Facts about the schema to evaluate on\<close>


lemma demo_article: "getModel demoEnv ''api::article.article'' =
    Some \<lparr> attributes = [(''title'', Primitive ''string''),
                          (''cover'', Media),
                          (''author'', Relation ''manyToOne'' (Some ''api::user.user'')),
                          (''constructor'', Relation ''manyToOne'' (Some ''api::user.user'')),
                          (''next'', Relation ''oneToOne'' (Some ''api::article.article''))] \<rparr>"
  by (simp add: demoEnv_def demoModels_def)

lemma demo_page: "getModel demoEnv ''api::page.page'' =
    Some \<lparr> attributes = [(''slug'', Primitive ''string''),
                          (''content'', DynamicZone (Some [''dynamic-zone.hero'', ''dynamic-zone.cta''])),
                          (''createdBy'', Relation ''oneToOne'' (Some ''admin::user'')),
                          (''related'', Relation ''morphToMany'' None)] \<rparr>"
  by (simp add: demoEnv_def demoModels_def)

lemma demo_constants [simp]:
  "CREATED_BY_ATTRIBUTE demoEnv = ''createdBy''" "UPDATED_BY_ATTRIBUTE demoEnv = ''updatedBy''"
  "isVisibleAttribute demoEnv m n"
  by (simp_all add: demoEnv_def)

lemma defaults_fields [simp]:
  "optCurrentDepth defaults = 0" "optVisitedUIDs defaults = {}" "relationalFields defaults = None"
  by (simp_all add: defaults_def optCurrentDepth_def optVisitedUIDs_def)


subsection \<open>Termination\<close>





subsection \<open>Cycles\<close>

text \<open>
  Claim C2. Let the type \<open>A\<close> have a relation \<open>r\<close> that points back to \<open>A\<close>, and let the
  builder expand \<open>A\<close> (no depth cap, and \<open>A\<close> not among the visited types unless the depth
  is 0). Then the recursive call for \<open>r\<close>, the second occurrence of \<open>A\<close> on that branch,
  returns the wildcard leaf, so the field \<open>r\<close> of the result is \<^verbatim>\<open>{ populate: '*' }\<close>. The
  revisit check needs both membership and a depth above 0: any call on \<open>A\<close> whose visited
  set does not contain \<open>A\<close> (a sibling branch), and any call at depth 0, is expanded in full
  unless a depth cap stops it.
\<close>

theorem self_reference_truncated:
  assumes "\<not> shouldStopAtCurrentDepth cfg A (optCurrentDepth opts) path"
    and "\<not> (A \<in> optVisitedUIDs opts \<and> optCurrentDepth opts > 0)"
    and "getModel env A = Some m"
    and "distinct (map fst (attributes m))"
    and "(r, Relation relation (Some A)) \<in> set (attributes m)"
    and "\<not> excluded cfg A r" and "includeOnly cfg path r = None"
    and "\<not> isMorphRelation relation"
    and "r \<noteq> CREATED_BY_ATTRIBUTE env" and "r \<noteq> UPDATED_BY_ATTRIBUTE env"
    and "isVisibleAttribute env m r"
    and "case relationalFields opts of None \<Rightarrow> True | Some fs \<Rightarrow> r \<in> set fs"
  shows "getDeepPopulate env cfg A (descend opts (insert A (optVisitedUIDs opts))) (path @ [r]) = JStar
     \<and> (\<exists>kvs. getDeepPopulate env cfg A opts path = JObj kvs \<and> map_of kvs r = Some (populate JStar))
     \<and> (\<forall>opts' path'.
          (A \<notin> optVisitedUIDs opts' \<or> optCurrentDepth opts' = 0)
          \<and> \<not> shouldStopAtCurrentDepth cfg A (optCurrentDepth opts') path'
          \<longrightarrow> getDeepPopulate env cfg A opts' path'
               = JObj (fold (attributeStep env cfg A opts' path' m) (attributes m) []))"
proof -
  let ?opts' = "descend opts (insert A (optVisitedUIDs opts))"
  have second: "getDeepPopulate env cfg A ?opts' (path @ [r]) = JStar"
    by (simp add: getDeepPopulate_expand)
  obtain kvs where kvs: "getDeepPopulate env cfg A opts path = JObj kvs"
    and look: "\<And>k. map_of kvs k = (case map_of (attributes m) k of
                                None \<Rightarrow> None
                              | Some a \<Rightarrow> attributeEntry env cfg A opts path m k a)"
    using getDeepPopulate_fields [OF assms(1-4)] by blast
  have "map_of (attributes m) r = Some (Relation relation (Some A))"
    using assms(4,5) by simp
  then have "map_of kvs r = Some (populate JStar)"
    by (simp add: look relation_entry [OF assms(6-12)] second)
  moreover have "getDeepPopulate env cfg A opts' path'
               = JObj (fold (attributeStep env cfg A opts' path' m) (attributes m) [])"
    if "A \<notin> optVisitedUIDs opts' \<or> optCurrentDepth opts' = 0"
      and "\<not> shouldStopAtCurrentDepth cfg A (optCurrentDepth opts') path'" for opts' path'
    using that assms(3) by (auto simp: getDeepPopulate_expand)
  ultimately show ?thesis using second kvs by blast
qed

theorem self_reference_truncated_witness:
  "\<not> shouldStopAtCurrentDepth DEPTH_CONFIG ''api::article.article'' (optCurrentDepth defaults) []
   \<and> \<not> isMorphRelation ''oneToOne''
   \<and> getDeepPopulate demoEnv DEPTH_CONFIG ''api::article.article''
        (descend defaults (insert ''api::article.article'' (optVisitedUIDs defaults))) ([] @ [''next''])
       = JStar
   \<and> (\<exists>kvs. getDeepPopulate demoEnv DEPTH_CONFIG ''api::article.article'' defaults [] = JObj kvs
         \<and> map_of kvs ''next'' = Some (populate JStar))"
proof -
  let ?m = "\<lparr> attributes = [(''title'', Primitive ''string''),
                          (''cover'', Media),
                          (''author'', Relation ''manyToOne'' (Some ''api::user.user'')),
                          (''constructor'', Relation ''manyToOne'' (Some ''api::user.user'')),
                          (''next'', Relation ''oneToOne'' (Some ''api::article.article''))] \<rparr>"
  have h1: "\<not> shouldStopAtCurrentDepth DEPTH_CONFIG ''api::article.article'' (optCurrentDepth defaults) []"
    by code_simp
  have h2: "\<not> (''api::article.article'' \<in> optVisitedUIDs defaults
               \<and> optCurrentDepth (defaults :: string set Options) > 0)"
    by simp
  have h4: "distinct (map fst (attributes ?m))" by simp
  have h5: "(''next'', Relation ''oneToOne'' (Some ''api::article.article'')) \<in> set (attributes ?m)"
    by simp
  have h6: "\<not> excluded DEPTH_CONFIG ''api::article.article'' ''next''" by code_simp
  have h7: "includeOnly DEPTH_CONFIG [] ''next'' = None" by code_simp
  have h8: "\<not> isMorphRelation ''oneToOne''" by code_simp
  have h9: "''next'' \<noteq> CREATED_BY_ATTRIBUTE demoEnv" by simp
  have h10: "''next'' \<noteq> UPDATED_BY_ATTRIBUTE demoEnv" by simp
  have h11: "isVisibleAttribute demoEnv ?m ''next''" by simp
  have h12: "case relationalFields (defaults :: string set Options) of
               None \<Rightarrow> True | Some fs \<Rightarrow> ''next'' \<in> set fs"
    by simp
  note T = self_reference_truncated [OF h1 h2 demo_article h4 h5 h6 h7 h8 h9 h10 h11 h12]
  from T have second: "getDeepPopulate demoEnv DEPTH_CONFIG ''api::article.article''
        (descend defaults (insert ''api::article.article'' (optVisitedUIDs defaults))) ([] @ [''next''])
       = JStar"
    by (rule conjunct1)
  from T have field: "\<exists>kvs. getDeepPopulate demoEnv DEPTH_CONFIG ''api::article.article'' defaults []
         = JObj kvs \<and> map_of kvs ''next'' = Some (populate JStar)"
    by (elim conjE)
  show ?thesis
    by (intro conjI h1 h8 second field)
qed

subsection \<open>The shallow set\<close>

text \<open>
  Claim C4, as the specification states it, fails: the shallow cap is tested on the type the
  builder is called on, together with the depth of that call, so a shallow type that is
  itself the root (depth 0) is expanded like any other type, and a relation of it that
  leads to a type outside the shallow set is populated with a nested directive. Here the
  root \<^verbatim>\<open>api::user.user\<close> has its articles populated with their own fields.
\<close>

theorem shallow_root_counterexample:
  "''api::user.user'' \<in> set (shallowPopulate DEPTH_CONFIG)
   \<and> \<not> wildcardFields (getDeepPopulate demoEnv DEPTH_CONFIG ''api::user.user'' defaults [])
   \<and> getDeepPopulate demoEnv DEPTH_CONFIG ''api::user.user'' defaults []
       = JObj [(''articles'',
                JObj [(''populate'',
                       JObj [(''cover'', JObj [(''populate'', JStar)]),
                             (''author'', JObj [(''populate'', JStar)]),
                             (''constructor'', JObj [(''populate'', JStar)]),
                             (''next'', JObj [(''populate'', JStar)])])])]"
  by code_simp

text \<open>
  Claim C4, amended. What the shallow set caps is the type a relation leads to. For every
  type in the shallow set, a relation field that targets it and that the builder emits (a
  visible relation of a type it expands, not polymorphic, not the creator or updater
  relation, not excluded, with no include-only list on its path) resolves to the wildcard
  populate \<^verbatim>\<open>{ populate: '*' }\<close> with no nested keys, whatever the type and the depth that
  declare the relation, and the builder called on the target for that field returns the
  wildcard leaf; this holds when the joined path of the field has no entry in
  \<^verbatim>\<open>pathDepths\<close> and is not the name of a member inherited from \<^verbatim>\<open>Object.prototype\<close>
  (see C3). At depth 0 the shallow rule stops nothing: the builder called at depth 0 on a
  type of the shallow set, on a path without entry in \<^verbatim>\<open>pathDepths\<close>, is not stopped.
\<close>

theorem shallow_target_wildcard:
  assumes "target \<in> set (shallowPopulate cfg)"
    and "map_of (pathDepths cfg) (getPathKey (path @ [name])) = None"
    and "getPathKey (path @ [name]) \<notin> set object_prototype_keys"
    and "\<not> shouldStopAtCurrentDepth cfg uid (optCurrentDepth opts) path"
    and "\<not> (uid \<in> optVisitedUIDs opts \<and> optCurrentDepth opts > 0)"
    and "getModel env uid = Some m"
    and "distinct (map fst (attributes m))"
    and "(name, Relation relation (Some target)) \<in> set (attributes m)"
    and "\<not> excluded cfg uid name" and "includeOnly cfg path name = None"
    and "\<not> isMorphRelation relation"
    and "name \<noteq> CREATED_BY_ATTRIBUTE env" and "name \<noteq> UPDATED_BY_ATTRIBUTE env"
    and "isVisibleAttribute env m name"
    and "case relationalFields opts of None \<Rightarrow> True | Some fs \<Rightarrow> name \<in> set fs"
  shows "getDeepPopulate env cfg target (descend opts (insert uid (optVisitedUIDs opts)))
           (path @ [name]) = JStar
     \<and> (\<exists>kvs. getDeepPopulate env cfg uid opts path = JObj kvs
           \<and> map_of kvs name = Some (JObj [(''populate'', JStar)]))
     \<and> (\<forall>root rootPath.
           root \<in> set (shallowPopulate cfg)
           \<and> map_of (pathDepths cfg) (getPathKey rootPath) = None
           \<longrightarrow> \<not> shouldStopAtCurrentDepth cfg root 0 rootPath)"
proof -
  have stop: "shouldStopAtCurrentDepth cfg target (optCurrentDepth opts + 1) (path @ [name])"
    using assms(1-3) by (simp add: shouldStopAtCurrentDepth_def js_get_def)
  then have leaf: "getDeepPopulate env cfg target (descend opts (insert uid (optVisitedUIDs opts)))
      (path @ [name]) = JStar"
    by (simp add: getDeepPopulate_expand)
  obtain kvs where kvs: "getDeepPopulate env cfg uid opts path = JObj kvs"
    and look: "\<And>k. map_of kvs k = (case map_of (attributes m) k of
                                None \<Rightarrow> None
                              | Some a \<Rightarrow> attributeEntry env cfg uid opts path m k a)"
    using getDeepPopulate_fields [OF assms(4-7)] by blast
  have "map_of (attributes m) name = Some (Relation relation (Some target))"
    using assms(7,8) by simp
  then have field: "map_of kvs name = Some (JObj [(''populate'', JStar)])"
    using stop by (simp add: look relation_entry [OF assms(9-15)] populate_def)
  have root: "\<not> shouldStopAtCurrentDepth cfg root 0 rootPath"
    if "root \<in> set (shallowPopulate cfg)"
      and "map_of (pathDepths cfg) (getPathKey rootPath) = None" for root rootPath
    using that by (simp add: shouldStopAtCurrentDepth_def js_get_def)
  from leaf kvs field root show ?thesis by blast
qed

theorem shallow_target_wildcard_witness:
  "''api::user.user'' \<in> set (shallowPopulate DEPTH_CONFIG)
   \<and> map_of (pathDepths DEPTH_CONFIG) (getPathKey ([] @ [''author''])) = None
   \<and> getPathKey ([] @ [''author'']) \<notin> set object_prototype_keys
   \<and> getDeepPopulate demoEnv DEPTH_CONFIG ''api::user.user''
        (descend defaults (insert ''api::article.article'' (optVisitedUIDs defaults)))
        ([] @ [''author'']) = JStar
   \<and> (\<exists>kvs. getDeepPopulate demoEnv DEPTH_CONFIG ''api::article.article'' defaults [] = JObj kvs
         \<and> map_of kvs ''author'' = Some (JObj [(''populate'', JStar)]))
   \<and> map_of (pathDepths DEPTH_CONFIG) (getPathKey []) = None
   \<and> \<not> shouldStopAtCurrentDepth DEPTH_CONFIG ''api::user.user'' 0 []"
proof -
  let ?m = "\<lparr> attributes = [(''title'', Primitive ''string''),
                          (''cover'', Media),
                          (''author'', Relation ''manyToOne'' (Some ''api::user.user'')),
                          (''constructor'', Relation ''manyToOne'' (Some ''api::user.user'')),
                          (''next'', Relation ''oneToOne'' (Some ''api::article.article''))] \<rparr>"
  have g1: "''api::user.user'' \<in> set (shallowPopulate DEPTH_CONFIG)" by code_simp
  have g2: "map_of (pathDepths DEPTH_CONFIG) (getPathKey ([] @ [''author''])) = None"
    by code_simp
  have g3: "getPathKey ([] @ [''author'']) \<notin> set object_prototype_keys"
    by code_simp
  have g4: "map_of (pathDepths DEPTH_CONFIG) (getPathKey []) = None"
    by code_simp
  have h1: "\<not> shouldStopAtCurrentDepth DEPTH_CONFIG ''api::article.article'' (optCurrentDepth defaults) []"
    by code_simp
  have h2: "\<not> (''api::article.article'' \<in> optVisitedUIDs defaults
               \<and> optCurrentDepth (defaults :: string set Options) > 0)"
    by simp
  have h4: "distinct (map fst (attributes ?m))" by simp
  have h5: "(''author'', Relation ''manyToOne'' (Some ''api::user.user'')) \<in> set (attributes ?m)"
    by simp
  have h6: "\<not> excluded DEPTH_CONFIG ''api::article.article'' ''author''" by code_simp
  have h7: "includeOnly DEPTH_CONFIG [] ''author'' = None" by code_simp
  have h8: "\<not> isMorphRelation ''manyToOne''" by code_simp
  have h9: "''author'' \<noteq> CREATED_BY_ATTRIBUTE demoEnv" by simp
  have h10: "''author'' \<noteq> UPDATED_BY_ATTRIBUTE demoEnv" by simp
  have h11: "isVisibleAttribute demoEnv ?m ''author''" by simp
  have h12: "case relationalFields (defaults :: string set Options) of
               None \<Rightarrow> True | Some fs \<Rightarrow> ''author'' \<in> set fs"
    by simp
  note T = shallow_target_wildcard [OF g1 g2 g3 h1 h2 demo_article h4 h5 h6 h7 h8 h9 h10 h11 h12]
  from T have leaf: "getDeepPopulate demoEnv DEPTH_CONFIG ''api::user.user''
        (descend defaults (insert ''api::article.article'' (optVisitedUIDs defaults)))
        ([] @ [''author'']) = JStar"
    by (rule conjunct1)
  from T have field: "\<exists>kvs. getDeepPopulate demoEnv DEPTH_CONFIG ''api::article.article'' defaults []
         = JObj kvs \<and> map_of kvs ''author'' = Some (JObj [(''populate'', JStar)])"
    by (elim conjE)
  from T g1 g4 have root: "\<not> shouldStopAtCurrentDepth DEPTH_CONFIG ''api::user.user'' 0 []"
    by blast
  show ?thesis
    by (intro conjI g1 g2 g3 leaf field g4 root)
qed

subsection \<open>Dynamic zones\<close>

text \<open>
  Claim C5. When the builder expands a type, a dynamic-zone attribute that the exclusion
  and include-only rules let through is emitted as the object
  \<^verbatim>\<open>{ on: { c1: { populate: d1 }, c2: { populate: d2 }, ... } }\<close> with exactly one key per
  allowed component. For the component \<open>c\<close> the builder is called on \<open>c\<close> at depth + 1,
  with the visited set of the current branch and on the path extended by the attribute
  name and \<open>c\<close>; \<open>d\<close> is the result of that call if it is a non-empty object and \<^verbatim>\<open>'*'\<close>
  otherwise. No entry depends on another one, and each meets its own depth caps: a
  component that the stop predicate stops at depth + 1 on its own path gets
  \<^verbatim>\<open>{ populate: '*' }\<close>.
\<close>

theorem dynamic_zone_on_variants:
  assumes "\<not> shouldStopAtCurrentDepth cfg uid (optCurrentDepth opts) path"
    and "\<not> (uid \<in> optVisitedUIDs opts \<and> optCurrentDepth opts > 0)"
    and "getModel env uid = Some m"
    and "distinct (map fst (attributes m))"
    and "(name, DynamicZone components) \<in> set (attributes m)"
    and "\<not> excluded cfg uid name"
    and "includeOnly cfg path name = None"
  shows "\<exists>kvs variants.
      getDeepPopulate env cfg uid opts path = JObj kvs
      \<and> map_of kvs name = Some (JObj [(''on'', JObj variants)])
      \<and> distinct (map fst variants)
      \<and> fst ` set variants = set (case components of None \<Rightarrow> [] | Some cs \<Rightarrow> cs)
      \<and> (\<forall>c \<in> set (case components of None \<Rightarrow> [] | Some cs \<Rightarrow> cs).
            map_of variants c = Some (JObj [(''populate'',
              (case getDeepPopulate env cfg c
                      (descend opts (insert uid (optVisitedUIDs opts))) (path @ [name, c]) of
                 JObj (p # ps) \<Rightarrow> JObj (p # ps)
               | _ \<Rightarrow> JStar))])
            \<and> (shouldStopAtCurrentDepth cfg c (optCurrentDepth opts + 1) (path @ [name, c])
                 \<longrightarrow> map_of variants c = Some (JObj [(''populate'', JStar)])))
      \<and> optCurrentDepth (descend opts (insert uid (optVisitedUIDs opts))) = optCurrentDepth opts + 1
      \<and> optVisitedUIDs (descend opts (insert uid (optVisitedUIDs opts)))
          = insert uid (optVisitedUIDs opts)"
proof -
  let ?cs = "case components of None \<Rightarrow> [] | Some cs \<Rightarrow> cs"
  let ?opts' = "descend opts (insert uid (optVisitedUIDs opts))"
  let ?variants = "variantsOf env cfg uid opts path name ?cs"
  have wrap: "nestedOrWildcard d
      = JObj [(''populate'', (case d of JObj (p # ps) \<Rightarrow> JObj (p # ps) | _ \<Rightarrow> JStar))]" for d
    by (cases d rule: nonEmptyObject.cases)
      (simp_all add: nestedOrWildcard_def populate_def split: list.splits)
  obtain kvs where kvs: "getDeepPopulate env cfg uid opts path = JObj kvs"
    and look: "\<And>k. map_of kvs k = (case map_of (attributes m) k of
                                None \<Rightarrow> None
                              | Some a \<Rightarrow> attributeEntry env cfg uid opts path m k a)"
    using getDeepPopulate_fields [OF assms(1-4)] by blast
  have "map_of (attributes m) name = Some (DynamicZone components)"
    using assms(4,5) by simp
  then have field: "map_of kvs name = Some (JObj [(''on'', JObj ?variants)])"
    using assms(6,7) by (simp add: look attributeEntry_def on_def)
  have dist: "distinct (map fst ?variants)"
    unfolding variantsOf_def by (rule distinct_fold_variants) simp
  have keys: "fst ` set ?variants = set ?cs"
    unfolding variantsOf_def by (simp add: keys_fold_variants)
  have entry: "map_of ?variants c = Some (JObj [(''populate'',
              (case getDeepPopulate env cfg c ?opts' (path @ [name, c]) of
                 JObj (p # ps) \<Rightarrow> JObj (p # ps)
               | _ \<Rightarrow> JStar))])"
    if "c \<in> set ?cs" for c
    using that unfolding variantsOf_def by (simp add: map_of_fold_variants wrap)
  have capped: "map_of ?variants c = Some (JObj [(''populate'', JStar)])"
    if c: "c \<in> set ?cs"
      and stop: "shouldStopAtCurrentDepth cfg c (optCurrentDepth opts + 1) (path @ [name, c])" for c
  proof -
    have "getDeepPopulate env cfg c ?opts' (path @ [name, c]) = JStar"
      using stop by (simp add: getDeepPopulate_expand)
    then show ?thesis using entry [OF c] by simp
  qed
  show ?thesis
    using kvs field dist keys entry capped by (intro exI [of _ kvs] exI [of _ ?variants]) simp
qed

lemma demo_page_directive:
  "getDeepPopulate demoEnv DEPTH_CONFIG ''api::page.page'' defaults [] =
     JObj [(''content'',
            on [(''dynamic-zone.hero'', populate (JObj [(''ctas'', populate JStar)])),
                (''dynamic-zone.cta'', populate (JObj [(''ctas'', populate JStar)]))])]"
  by code_simp

lemma demo_hero_directive:
  "getDeepPopulate demoEnv DEPTH_CONFIG ''dynamic-zone.hero''
     (descend defaults (insert ''api::page.page'' (optVisitedUIDs defaults)))
     ([] @ [''content'', ''dynamic-zone.hero''])
   = JObj [(''ctas'', JObj [(''populate'', JStar)])]"
  by code_simp

theorem dynamic_zone_on_variants_witness:
  "\<not> shouldStopAtCurrentDepth DEPTH_CONFIG ''api::page.page'' (optCurrentDepth defaults) []
   \<and> \<not> excluded DEPTH_CONFIG ''api::page.page'' ''content''
   \<and> includeOnly DEPTH_CONFIG [] ''content'' = None
   \<and> (\<exists>kvs variants.
        getDeepPopulate demoEnv DEPTH_CONFIG ''api::page.page'' defaults [] = JObj kvs
        \<and> map_of kvs ''content'' = Some (JObj [(''on'', JObj variants)])
        \<and> fst ` set variants = {''dynamic-zone.hero'', ''dynamic-zone.cta''}
        \<and> map_of variants ''dynamic-zone.hero''
            = Some (JObj [(''populate'', JObj [(''ctas'', JObj [(''populate'', JStar)])])]))"
proof -
  let ?m = "\<lparr> attributes = [(''slug'', Primitive ''string''),
                          (''content'', DynamicZone (Some [''dynamic-zone.hero'', ''dynamic-zone.cta''])),
                          (''createdBy'', Relation ''oneToOne'' (Some ''admin::user'')),
                          (''related'', Relation ''morphToMany'' None)] \<rparr>"
  have h1: "\<not> shouldStopAtCurrentDepth DEPTH_CONFIG ''api::page.page'' (optCurrentDepth defaults) []"
    by code_simp
  have h2: "\<not> (''api::page.page'' \<in> optVisitedUIDs defaults
               \<and> optCurrentDepth (defaults :: string set Options) > 0)"
    by simp
  have h4: "distinct (map fst (attributes ?m))" by simp
  have h5: "(''content'', DynamicZone (Some [''dynamic-zone.hero'', ''dynamic-zone.cta'']))
              \<in> set (attributes ?m)"
    by simp
  have h6: "\<not> excluded DEPTH_CONFIG ''api::page.page'' ''content''" by code_simp
  have h7: "includeOnly DEPTH_CONFIG [] ''content'' = None" by code_simp
  from dynamic_zone_on_variants [OF h1 h2 demo_page h4 h5 h6 h7]
  obtain kvs variants where
    kvs: "getDeepPopulate demoEnv DEPTH_CONFIG ''api::page.page'' defaults [] = JObj kvs"
    and field: "map_of kvs ''content'' = Some (JObj [(''on'', JObj variants)])"
    and keys: "fst ` set variants = set [''dynamic-zone.hero'', ''dynamic-zone.cta'']"
    and entry: "\<forall>c \<in> set [''dynamic-zone.hero'', ''dynamic-zone.cta''].
            map_of variants c = Some (JObj [(''populate'',
              (case getDeepPopulate demoEnv DEPTH_CONFIG c
                      (descend defaults (insert ''api::page.page'' (optVisitedUIDs defaults)))
                      ([] @ [''content'', c]) of
                 JObj (p # ps) \<Rightarrow> JObj (p # ps)
               | _ \<Rightarrow> JStar))])
            \<and> (shouldStopAtCurrentDepth DEPTH_CONFIG c (optCurrentDepth defaults + 1)
                   ([] @ [''content'', c])
                 \<longrightarrow> map_of variants c = Some (JObj [(''populate'', JStar)]))"
    by (auto simp del: append.simps)
  from entry have "map_of variants ''dynamic-zone.hero'' = Some (JObj [(''populate'',
              (case getDeepPopulate demoEnv DEPTH_CONFIG ''dynamic-zone.hero''
                      (descend defaults (insert ''api::page.page'' (optVisitedUIDs defaults)))
                      ([] @ [''content'', ''dynamic-zone.hero'']) of
                 JObj (p # ps) \<Rightarrow> JObj (p # ps)
               | _ \<Rightarrow> JStar))])"
    by simp
  then have hero: "map_of variants ''dynamic-zone.hero''
            = Some (JObj [(''populate'', JObj [(''ctas'', JObj [(''populate'', JStar)])])])"
    unfolding demo_hero_directive by simp
  from keys have keys': "fst ` set variants = {''dynamic-zone.hero'', ''dynamic-zone.cta''}"
    by simp
  from kvs field keys' hero
  have ex: "\<exists>kvs variants.
        getDeepPopulate demoEnv DEPTH_CONFIG ''api::page.page'' defaults [] = JObj kvs
        \<and> map_of kvs ''content'' = Some (JObj [(''on'', JObj variants)])
        \<and> fst ` set variants = {''dynamic-zone.hero'', ''dynamic-zone.cta''}
        \<and> map_of variants ''dynamic-zone.hero''
            = Some (JObj [(''populate'', JObj [(''ctas'', JObj [(''populate'', JStar)])])])"
    by blast
  show ?thesis by (intro conjI h1 h6 h7 ex)
qed

subsection \<open>Polymorphic and provenance relations\<close>

lemma fold_entries_invariant:
  assumes "\<And>n a v. (n, a) \<in> set attrs \<Longrightarrow> f n a = Some v \<Longrightarrow> Q n v"
    and "\<And>k v. (k, v) \<in> set acc0 \<Longrightarrow> Q k v"
    and "(k, v) \<in> set (fold (\<lambda>(n, a) acc. case f n a of None \<Rightarrow> acc | Some v \<Rightarrow> js_set acc n v) attrs acc0)"
  shows "Q k v"
  using assms
proof (induction attrs arbitrary: acc0)
  case Nil
  then show ?case by simp
next
  case (Cons p attrs)
  obtain n a where p: "p = (n, a)" by (cases p)
  let ?acc1 = "case f n a of None \<Rightarrow> acc0 | Some v \<Rightarrow> js_set acc0 n v"
  have acc1: "Q k' v'" if "(k', v') \<in> set ?acc1" for k' v'
  proof (cases "f n a")
    case None
    then show ?thesis using that Cons.prems(2) by simp
  next
    case (Some w)
    then have "(k', v') = (n, w) \<or> (k', v') \<in> set acc0"
      using that set_js_set [of acc0 n w] by auto
    then show ?thesis using Cons.prems(1) [of n a w] Some p Cons.prems(2) by auto
  qed
  show ?case
  proof (rule Cons.IH [of ?acc1])
    show "\<And>n a v. (n, a) \<in> set attrs \<Longrightarrow> f n a = Some v \<Longrightarrow> Q n v"
      using Cons.prems(1) by auto
    show "\<And>k v. (k, v) \<in> set ?acc1 \<Longrightarrow> Q k v" by (rule acc1)
    show "(k, v) \<in> set (fold (\<lambda>(n, a) acc. case f n a of None \<Rightarrow> acc | Some v \<Rightarrow> js_set acc n v)
                          attrs ?acc1)"
      using Cons.prems(3) p by simp
  qed
qed

lemma fold_variants_invariant:
  assumes "\<And>c. c \<in> set cs \<Longrightarrow> Q c (g c)"
    and "\<And>k v. (k, v) \<in> set acc0 \<Longrightarrow> Q k v"
    and "(k, v) \<in> set (fold (\<lambda>c acc. js_set acc c (g c)) cs acc0)"
  shows "Q k v"
  using assms
proof (induction cs arbitrary: acc0)
  case Nil
  then show ?case by simp
next
  case (Cons c cs)
  have acc1: "Q k' v'" if "(k', v') \<in> set (js_set acc0 c (g c))" for k' v'
    using that set_js_set [of acc0 c "g c"] Cons.prems(1) [of c] Cons.prems(2) by auto
  show ?case
    by (rule Cons.IH [of "js_set acc0 c (g c)"]) (use Cons.prems acc1 in auto)
qed

lemma entryFor_nestedOrWildcard_relation:
  "directiveFor env t d \<Longrightarrow> entryFor env (Relation r (Some t)) (nestedOrWildcard d)"
  by (auto simp: nestedOrWildcard_def intro: directiveFor_entryFor.intros)

lemma entryFor_nestedOrWildcard_component:
  "directiveFor env c d \<Longrightarrow> entryFor env (Component c) (nestedOrWildcard d)"
  by (auto simp: nestedOrWildcard_def intro: directiveFor_entryFor.intros)

lemma includeOnly_empty: "includeOnlyFields cfg = [] \<Longrightarrow> includeOnly cfg path n = None"
  by (simp add: includeOnly_def split: option.splits)

lemma getDeepPopulate_directiveFor:
  assumes io: "includeOnlyFields cfg = []"
  shows "directiveFor env uid (getDeepPopulate env cfg uid opts path)"
  using io
proof (induction env cfg uid opts path rule: getDeepPopulate.induct)
  case (1 env cfg uid opts path)
  note io = "1.prems"
  show ?case
  proof (cases "shouldStopAtCurrentDepth cfg uid (optCurrentDepth opts) path
      \<or> (uid \<in> optVisitedUIDs opts \<and> optCurrentDepth opts > 0) \<or> getModel env uid = None")
    case True
    then show ?thesis by (auto simp: getDeepPopulate_expand intro: directiveFor_entryFor.leaf)
  next
    case False
    then obtain m where m: "getModel env uid = Some m" by auto
    from False have ns: "\<not> shouldStopAtCurrentDepth cfg uid (optCurrentDepth opts) path"
      and nv: "\<not> (uid \<in> optVisitedUIDs opts \<and> optCurrentDepth opts > 0)" by auto
    let ?v = "insert uid (optVisitedUIDs opts)"
    let ?Q = "\<lambda>k v. \<exists>a. (k, a) \<in> set (attributes m) \<and> populatable env k a \<and> entryFor env a v"
    have entry: "?Q n v"
      if na: "(n, a) \<in> set (attributes m)"
        and e: "attributeEntry env cfg uid opts path m n a = Some v" for n a v
    proof -
      have ne1: "\<not> excluded cfg uid n" using e by (auto simp: attributeEntry_def split: if_splits)
      have ne2: "includeOnly cfg path n = None" using io by (rule includeOnly_empty)
      show ?thesis
      proof (cases a)
        case (Relation rel target)
        have pop: "populatable env n a"
          using e ne1 ne2 Relation by (auto simp: attributeEntry_def populatable_def split: if_splits)
        have "entryFor env a v"
        proof (cases "v = populate JStar")
          case True
          then show ?thesis by (simp add: directiveFor_entryFor.wildcard)
        next
          case nw: False
          then obtain t where t: "target = Some t"
            and nst: "\<not> shouldStopAtCurrentDepth cfg t (optCurrentDepth opts + 1) (path @ [n])"
            and tne: "t \<noteq> []"
            and v: "v = nestedOrWildcard (getDeepPopulate env cfg t (descend opts ?v) (path @ [n]))"
            and nm: "\<not> isMorphRelation rel"
            and np: "\<not> (n = CREATED_BY_ATTRIBUTE env \<or> n = UPDATED_BY_ATTRIBUTE env)"
            and vis: "isVisibleAttribute env m n
                      \<and> (case relationalFields opts of None \<Rightarrow> True | Some fs \<Rightarrow> n \<in> set fs)"
            using e ne1 ne2 Relation
            by (auto simp: attributeEntry_def split: if_splits option.splits)
          have "directiveFor env t (getDeepPopulate env cfg t (descend opts ?v) (path @ [n]))"
            by (rule "1.IH"(1) [OF ns nv m na refl ne1 ne2 Relation nm np vis t nst tne io])
          then show ?thesis unfolding v Relation t by (rule entryFor_nestedOrWildcard_relation)
        qed
        with pop na show ?thesis by blast
      next
        case Media
        then have "v = populate JStar" using e ne1 ne2 by (simp add: attributeEntry_def)
        then show ?thesis
          using na Media by (auto simp: populatable_def intro: directiveFor_entryFor.wildcard)
      next
        case (Component c)
        then have v: "v = nestedOrWildcard (getDeepPopulate env cfg c (descend opts ?v) (path @ [n]))"
          using e ne1 ne2 by (simp add: attributeEntry_def)
        have "directiveFor env c (getDeepPopulate env cfg c (descend opts ?v) (path @ [n]))"
          by (rule "1.IH"(2) [OF ns nv m na refl ne1 ne2 Component io])
        then have "entryFor env a v"
          unfolding v Component by (rule entryFor_nestedOrWildcard_component)
        then show ?thesis using na Component by (auto simp: populatable_def)
      next
        case (DynamicZone cs)
        let ?cs = "case cs of None \<Rightarrow> [] | Some cs \<Rightarrow> cs"
        have v: "v = on (variantsOf env cfg uid opts path n ?cs)"
          using e ne1 ne2 DynamicZone by (simp add: attributeEntry_def)
        have "c \<in> set ?cs \<and> (\<exists>d. e' = populate d \<and> directiveFor env c d)"
          if mem: "(c, e') \<in> set (variantsOf env cfg uid opts path n ?cs)" for c e'
        proof (rule fold_variants_invariant
            [where Q = "\<lambda>c e'. c \<in> set ?cs \<and> (\<exists>d. e' = populate d \<and> directiveFor env c d)",
              OF _ _ mem [unfolded variantsOf_def]])
          fix c assume c: "c \<in> set ?cs"
          have d: "directiveFor env c (getDeepPopulate env cfg c (descend opts ?v) (path @ [n, c]))"
            by (rule "1.IH"(3) [OF ns nv m na refl ne1 ne2 DynamicZone c io])
          show "c \<in> set ?cs
              \<and> (\<exists>d. nestedOrWildcard (getDeepPopulate env cfg c (descend opts ?v) (path @ [n, c]))
                       = populate d
                   \<and> directiveFor env c d)"
            using c d
              nestedOrWildcard_populate [of "getDeepPopulate env cfg c (descend opts ?v) (path @ [n, c])"]
            by (auto intro: directiveFor_entryFor.leaf)
        next
          fix k :: string and v :: json assume "(k, v) \<in> set []"
          then show "k \<in> set ?cs \<and> (\<exists>d. v = populate d \<and> directiveFor env k d)" by simp
        qed
        then have "entryFor env a v" unfolding v DynamicZone
          by (intro directiveFor_entryFor.variants) blast
        then show ?thesis using na DynamicZone by (auto simp: populatable_def)
      next
        case (Primitive t)
        then show ?thesis using e ne1 ne2 by (simp add: attributeEntry_def)
      qed
    qed
    have "?Q k v"
      if "(k, v) \<in> set (fold (attributeStep env cfg uid opts path m) (attributes m) [])" for k v
      by (rule fold_entries_invariant [where Q = ?Q, OF entry _ that [unfolded attributeStep_fold]]) auto
    then have "directiveFor env uid
        (JObj (fold (attributeStep env cfg uid opts path m) (attributes m) []))"
      using m by (intro directiveFor_entryFor.fields) auto
    then show ?thesis using ns nv m by (auto simp: getDeepPopulate_expand)
  qed
qed

inductive_cases directiveFor_JObjE: "directiveFor env uid (JObj kvs)"

lemma directiveFor_keys:
  assumes "directiveFor env uid (JObj kvs)"
    and "getModel env uid = Some m"
    and "distinct (map fst (attributes m))"
    and "(k, Relation relation target) \<in> set (attributes m)"
    and "isMorphRelation relation \<or> k = CREATED_BY_ATTRIBUTE env \<or> k = UPDATED_BY_ATTRIBUTE env"
  shows "k \<notin> fst ` set kvs"
proof
  assume "k \<in> fst ` set kvs"
  then obtain v where kv: "(k, v) \<in> set kvs" by auto
  from assms(1) obtain m' where m': "getModel env uid = Some m'"
    and all: "\<forall>k v. (k, v) \<in> set kvs \<longrightarrow>
       (\<exists>a. (k, a) \<in> set (attributes m') \<and> populatable env k a \<and> entryFor env a v)"
    by (rule directiveFor_JObjE)
  from m' assms(2) have "m' = m" by simp
  with all kv obtain a where a: "(k, a) \<in> set (attributes m)" and pop: "populatable env k a"
    by blast
  from assms(3,4) a have "a = Relation relation target"
    by (metis eq_key_imp_eq_value)
  with pop assms(5) show False by (auto simp: populatable_def)
qed

text \<open>
  Claim C6. With the include-only table empty, as the source ships it, the directive the
  builder returns for any type, options and path is a directive for that type in the sense
  of \<open>directiveFor\<close>: at every level of nesting each key names an attribute of the type at
  that level that is a media field, a component, a dynamic zone, or a relation that is
  neither polymorphic nor one of the provenance relations. In particular the name of a
  polymorphic relation, \<^verbatim>\<open>createdBy\<close> or \<^verbatim>\<open>updatedBy\<close> relation of a type is not a key of the
  directive built for that type (\<open>directiveFor_keys\<close> gives the same for every nested
  directive).
\<close>

theorem no_morph_or_provenance:
  assumes "includeOnlyFields cfg = []"
  shows "directiveFor env uid (getDeepPopulate env cfg uid opts path)
     \<and> (\<forall>kvs m k relation target.
          getDeepPopulate env cfg uid opts path = JObj kvs
          \<and> getModel env uid = Some m
          \<and> distinct (map fst (attributes m))
          \<and> (k, Relation relation target) \<in> set (attributes m)
          \<and> (isMorphRelation relation \<or> k = CREATED_BY_ATTRIBUTE env \<or> k = UPDATED_BY_ATTRIBUTE env)
          \<longrightarrow> k \<notin> fst ` set kvs)"
proof -
  have d: "directiveFor env uid (getDeepPopulate env cfg uid opts path)"
    using assms by (rule getDeepPopulate_directiveFor)
  have "k \<notin> fst ` set kvs"
    if "getDeepPopulate env cfg uid opts path = JObj kvs"
      and "getModel env uid = Some m"
      and "distinct (map fst (attributes m))"
      and "(k, Relation relation target) \<in> set (attributes m)"
      and "isMorphRelation relation \<or> k = CREATED_BY_ATTRIBUTE env \<or> k = UPDATED_BY_ATTRIBUTE env"
    for kvs m k relation target
    using d that(2-5) unfolding that(1) by (rule directiveFor_keys)
  with d show ?thesis by blast
qed

theorem no_morph_or_provenance_witness:
  "includeOnlyFields DEPTH_CONFIG = []
   \<and> isMorphRelation ''morphToMany''
   \<and> directiveFor demoEnv ''api::page.page''
        (getDeepPopulate demoEnv DEPTH_CONFIG ''api::page.page'' defaults [])
   \<and> ''related'' \<notin> fst ` set [(''content'',
            on [(''dynamic-zone.hero'', populate (JObj [(''ctas'', populate JStar)])),
                (''dynamic-zone.cta'', populate (JObj [(''ctas'', populate JStar)]))])]
   \<and> ''createdBy'' \<notin> fst ` set [(''content'',
            on [(''dynamic-zone.hero'', populate (JObj [(''ctas'', populate JStar)])),
                (''dynamic-zone.cta'', populate (JObj [(''ctas'', populate JStar)]))])]"
proof -
  let ?m = "\<lparr> attributes = [(''slug'', Primitive ''string''),
                          (''content'', DynamicZone (Some [''dynamic-zone.hero'', ''dynamic-zone.cta''])),
                          (''createdBy'', Relation ''oneToOne'' (Some ''admin::user'')),
                          (''related'', Relation ''morphToMany'' None)] \<rparr>"
  let ?kvs = "[(''content'',
            on [(''dynamic-zone.hero'', populate (JObj [(''ctas'', populate JStar)])),
                (''dynamic-zone.cta'', populate (JObj [(''ctas'', populate JStar)]))])]"
  have io: "includeOnlyFields DEPTH_CONFIG = []" by (simp add: DEPTH_CONFIG_def)
  have morph: "isMorphRelation ''morphToMany''" by code_simp
  have dist: "distinct (map fst (attributes ?m))" by simp
  note T = no_morph_or_provenance [OF io, of demoEnv "''api::page.page''" defaults "[]"]
  from T have typed: "directiveFor demoEnv ''api::page.page''
        (getDeepPopulate demoEnv DEPTH_CONFIG ''api::page.page'' defaults [])"
    by (rule conjunct1)
  from T have keys: "\<And>k relation target.
      (k, Relation relation target) \<in> set (attributes ?m) \<Longrightarrow>
      isMorphRelation relation \<or> k = CREATED_BY_ATTRIBUTE demoEnv \<or> k = UPDATED_BY_ATTRIBUTE demoEnv \<Longrightarrow>
      k \<notin> fst ` set ?kvs"
    using demo_page_directive demo_page dist by blast
  have related: "''related'' \<notin> fst ` set ?kvs"
    by (rule keys [of _ "''morphToMany''" None]) (simp_all add: morph)
  have created: "''createdBy'' \<notin> fst ` set ?kvs"
    by (rule keys [of _ "''oneToOne''" "Some ''admin::user''"]) simp_all
  show ?thesis by (intro conjI io morph typed related created)
qed


subsection \<open>The middleware\<close>

lemma includes_str_sublist: "includes_str s t = sublist t s"
  by (induction s) (simp_all add: sublist_Cons_right)

lemma not_supplied: "(\<not> supplied q) = (q = None \<or> q = Some (PString []))"
  by (cases q rule: supplied.cases) simp_all

lemma namespace_sublist:
  assumes "prefix ''/api/'' u"
  shows "sublist (''/api/'' @ targetNamespace_spec u) u"
proof -
  from assms obtain r where u: "u = ''/api/'' @ r" by (auto elim: prefixE)
  let ?q = "takeWhile (\<lambda>c. c \<noteq> CHR ''?'') r"
  have ns: "targetNamespace_spec u = takeWhile (\<lambda>c. c \<noteq> CHR ''/'') ?q"
    by (simp add: targetNamespace_spec_def u)
  have "r = ?q @ dropWhile (\<lambda>c. c \<noteq> CHR ''?'') r" by simp
  moreover have "?q = takeWhile (\<lambda>c. c \<noteq> CHR ''/'') ?q @ dropWhile (\<lambda>c. c \<noteq> CHR ''/'') ?q"
    by simp
  ultimately have "r = takeWhile (\<lambda>c. c \<noteq> CHR ''/'') ?q
      @ (dropWhile (\<lambda>c. c \<noteq> CHR ''/'') ?q @ dropWhile (\<lambda>c. c \<noteq> CHR ''?'') r)"
    by (metis append.assoc)
  then have "u = [] @ (''/api/'' @ targetNamespace_spec u)
      @ (dropWhile (\<lambda>c. c \<noteq> CHR ''/'') ?q @ dropWhile (\<lambda>c. c \<noteq> CHR ''?'') r)"
    unfolding ns using u by (metis append.assoc append_Nil)
  then show ?thesis unfolding sublist_def by blast
qed

text \<open>
  Claim C9 as worded does not hold: the source does not compare the target namespace with
  \<^verbatim>\<open>users\<close> and \<^verbatim>\<open>seo\<close>, it searches the whole URL, query string included, for the
  substrings \<^verbatim>\<open>/api/users\<close> and \<^verbatim>\<open>/api/seo\<close>. The requests
  \<^verbatim>\<open>GET /api/articles?ref=/api/users\<close> and \<^verbatim>\<open>GET /api/seoul\<close> are reads under the content
  API without a populate directive, their target namespaces \<^verbatim>\<open>articles\<close> and \<^verbatim>\<open>seoul\<close>
  are not excluded ones, extraction and singularization succeed, and no directive is
  injected.
\<close>

theorem namespace_guard_counterexample:
  "request_method getArticlesRef = ''GET''
   \<and> prefix ''/api/'' (request_url getArticlesRef)
   \<and> query_populate getArticlesRef = None
   \<and> targetNamespace_spec (request_url getArticlesRef) = ''articles''
   \<and> targetNamespace_spec (request_url getArticlesRef) \<notin> set excludedNamespaces_spec
   \<and> applies_spec getArticlesRef
   \<and> extractPathSegment (request_url getArticlesRef) = ''articles''
   \<and> singular demoEnv ''articles'' = ''article''
   \<and> injected (middleware demoEnv DEPTH_CONFIG getArticlesRef) = None
   \<and> request_method getSeoul = ''GET''
   \<and> prefix ''/api/'' (request_url getSeoul)
   \<and> query_populate getSeoul = None
   \<and> targetNamespace_spec (request_url getSeoul) = ''seoul''
   \<and> targetNamespace_spec (request_url getSeoul) \<notin> set excludedNamespaces_spec
   \<and> applies_spec getSeoul
   \<and> extractPathSegment (request_url getSeoul) = ''seoul''
   \<and> singular demoEnv ''seoul'' = ''seoul''
   \<and> injected (middleware demoEnv DEPTH_CONFIG getSeoul) = None"
  by code_simp

text \<open>
  Claim C9, amended. The middleware assigns a computed directive to \<^verbatim>\<open>ctx.query.populate\<close>
  exactly when the method is \<^verbatim>\<open>GET\<close>, the URL starts with \<^verbatim>\<open>/api/\<close>, the caller supplied
  no populate directive (none, or the empty string), the URL, query string included,
  nowhere contains \<^verbatim>\<open>/api/users\<close> or \<^verbatim>\<open>/api/seo\<close>, and both the extraction of the content
  type and its singularization succeed. A URL that contains one of the two substrings, or
  for which the extraction or the singularization fails, is passed on as it came: no
  directive assigned, \<^verbatim>\<open>ctx.query.populate\<close> unchanged, the next handler called once.
  In every case the next handler is called exactly once, and the outcome is a value:
  nothing is raised. An assigned directive is the builder's result for
  \<^verbatim>\<open>api::<singular>.<singular>\<close> at depth 0 with an empty visited set and an empty path.
  One direction of the claim as worded holds: a request that gets a directive meets the
  four conditions of the specification, its target namespace is not an excluded one.
\<close>

theorem middleware_injection:
  "(injected (middleware env cfg c) \<noteq> None) =
     (request_method c = ''GET''
      \<and> prefix ''/api/'' (request_url c)
      \<and> (query_populate c = None \<or> query_populate c = Some (PString []))
      \<and> \<not> sublist ''/api/users'' (request_url c)
      \<and> \<not> sublist ''/api/seo'' (request_url c)
      \<and> extractPathSegment (request_url c) \<noteq> []
      \<and> singular env (extractPathSegment (request_url c)) \<noteq> [])
   \<and> (sublist ''/api/users'' (request_url c) \<or> sublist ''/api/seo'' (request_url c)
        \<or> extractPathSegment (request_url c) = []
        \<or> singular env (extractPathSegment (request_url c)) = []
        \<longrightarrow> middleware env cfg c
              = \<lparr> injected = None, populate_after = query_populate c, next_calls = 1 \<rparr>)
   \<and> (injected (middleware env cfg c) = None
        \<longrightarrow> populate_after (middleware env cfg c) = query_populate c)
   \<and> (\<forall>d. injected (middleware env cfg c) = Some d \<longrightarrow>
          populate_after (middleware env cfg c) = Some (PDirective d)
          \<and> d = getDeepPopulate env cfg
                 (''api::'' @ singular env (extractPathSegment (request_url c)) @ ''.''
                    @ singular env (extractPathSegment (request_url c)))
                 defaults [])
   \<and> next_calls (middleware env cfg c) = 1
   \<and> (injected (middleware env cfg c) \<noteq> None \<longrightarrow> applies_spec c)"
proof -
  have guard: "\<not> sublist ''/api/users'' (request_url c) \<and> \<not> sublist ''/api/seo'' (request_url c)
      \<Longrightarrow> prefix ''/api/'' (request_url c)
      \<Longrightarrow> targetNamespace_spec (request_url c) \<notin> set excludedNamespaces_spec"
    using namespace_sublist [of "request_url c"]
    by (auto simp: excludedNamespaces_spec_def)
  have iff: "(injected (middleware env cfg c) \<noteq> None) =
     (request_method c = ''GET''
      \<and> prefix ''/api/'' (request_url c)
      \<and> (query_populate c = None \<or> query_populate c = Some (PString []))
      \<and> \<not> sublist ''/api/users'' (request_url c)
      \<and> \<not> sublist ''/api/seo'' (request_url c)
      \<and> extractPathSegment (request_url c) \<noteq> []
      \<and> singular env (extractPathSegment (request_url c)) \<noteq> [])"
    unfolding not_supplied [symmetric] includes_str_sublist [symmetric]
    by (auto simp: middleware_def passOn_def Let_def)
  have pass: "sublist ''/api/users'' (request_url c) \<or> sublist ''/api/seo'' (request_url c)
        \<or> extractPathSegment (request_url c) = []
        \<or> singular env (extractPathSegment (request_url c)) = []
        \<longrightarrow> middleware env cfg c
              = \<lparr> injected = None, populate_after = query_populate c, next_calls = 1 \<rparr>"
    unfolding includes_str_sublist [symmetric]
    by (auto simp: middleware_def passOn_def Let_def)
  have rest: "(injected (middleware env cfg c) = None
        \<longrightarrow> populate_after (middleware env cfg c) = query_populate c)
   \<and> (\<forall>d. injected (middleware env cfg c) = Some d \<longrightarrow>
          populate_after (middleware env cfg c) = Some (PDirective d)
          \<and> d = getDeepPopulate env cfg
                 (''api::'' @ singular env (extractPathSegment (request_url c)) @ ''.''
                    @ singular env (extractPathSegment (request_url c)))
                 defaults [])
   \<and> next_calls (middleware env cfg c) = 1"
    by (auto simp: middleware_def passOn_def Let_def)
  have spec: "injected (middleware env cfg c) \<noteq> None \<longrightarrow> applies_spec c"
    using iff guard by (simp add: applies_spec_def)
  from iff pass rest spec show ?thesis by (intro conjI) simp_all
qed

theorem middleware_injection_witness:
  "injected (middleware demoEnv DEPTH_CONFIG getPages) \<noteq> None
   \<and> populate_after (middleware demoEnv DEPTH_CONFIG getPages)
       = Some (PDirective (getDeepPopulate demoEnv DEPTH_CONFIG ''api::page.page'' defaults []))
   \<and> applies_spec getPages
   \<and> extractPathSegment (request_url getTeam) = []
   \<and> middleware demoEnv DEPTH_CONFIG getTeam
       = \<lparr> injected = None, populate_after = None, next_calls = 1 \<rparr>
   \<and> sublist ''/api/users'' (request_url getUsers)
   \<and> extractPathSegment (request_url getUsers) = ''users''
   \<and> singular demoEnv ''users'' = ''user''
   \<and> middleware demoEnv DEPTH_CONFIG getUsers
       = \<lparr> injected = None, populate_after = None, next_calls = 1 \<rparr>"
proof -
  have seg: "extractPathSegment (request_url getPages) = ''pages''" by code_simp
  have sing: "singular demoEnv ''pages'' = ''page''" by (simp add: demoEnv_def)
  have g: "request_method getPages = ''GET''
      \<and> prefix ''/api/'' (request_url getPages)
      \<and> (query_populate getPages = None \<or> query_populate getPages = Some (PString []))
      \<and> \<not> sublist ''/api/users'' (request_url getPages)
      \<and> \<not> sublist ''/api/seo'' (request_url getPages)
      \<and> extractPathSegment (request_url getPages) \<noteq> []
      \<and> singular demoEnv (extractPathSegment (request_url getPages)) \<noteq> []"
    unfolding seg sing by code_simp
  note T = middleware_injection [of demoEnv DEPTH_CONFIG getPages]
  from T g have inj: "injected (middleware demoEnv DEPTH_CONFIG getPages) \<noteq> None"
    by blast
  then obtain d where d: "injected (middleware demoEnv DEPTH_CONFIG getPages) = Some d" by blast
  from T d have "populate_after (middleware demoEnv DEPTH_CONFIG getPages) = Some (PDirective d)
      \<and> d = getDeepPopulate demoEnv DEPTH_CONFIG
                 (''api::'' @ singular demoEnv (extractPathSegment (request_url getPages)) @ ''.''
                    @ singular demoEnv (extractPathSegment (request_url getPages)))
                 defaults []"
    by blast
  then have after: "populate_after (middleware demoEnv DEPTH_CONFIG getPages)
       = Some (PDirective (getDeepPopulate demoEnv DEPTH_CONFIG ''api::page.page'' defaults []))"
    by (simp add: seg sing)
  from T inj have spec: "applies_spec getPages" by blast
  have none: "extractPathSegment (request_url getTeam) = []" by code_simp
  have qt: "query_populate getTeam = None" by (simp add: getTeam_def)
  from middleware_injection [of demoEnv DEPTH_CONFIG getTeam] none
  have "middleware demoEnv DEPTH_CONFIG getTeam
       = \<lparr> injected = None, populate_after = query_populate getTeam, next_calls = 1 \<rparr>"
    by blast
  then have pass: "middleware demoEnv DEPTH_CONFIG getTeam
       = \<lparr> injected = None, populate_after = None, next_calls = 1 \<rparr>"
    unfolding qt .
  have sub: "sublist ''/api/users'' (request_url getUsers)" by code_simp
  have useg: "extractPathSegment (request_url getUsers) = ''users''" by code_simp
  have usng: "singular demoEnv ''users'' = ''user''" by (simp add: demoEnv_def)
  have qu: "query_populate getUsers = None" by (simp add: getUsers_def)
  from middleware_injection [of demoEnv DEPTH_CONFIG getUsers] sub
  have "middleware demoEnv DEPTH_CONFIG getUsers
       = \<lparr> injected = None, populate_after = query_populate getUsers, next_calls = 1 \<rparr>"
    by blast
  then have excl: "middleware demoEnv DEPTH_CONFIG getUsers
       = \<lparr> injected = None, populate_after = None, next_calls = 1 \<rparr>"
    unfolding qu .
  show ?thesis by (intro conjI inj after spec none pass sub useg usng excl)
qed


subsection \<open>The visited sets in the store\<close>

lemma getDeepPopulate_store_expand:
  "getDeepPopulate_store env cfg uid opts path h =
     (case newSet h {} of (emptySet, h0) \<Rightarrow>
      (let visited = (case visitedUIDs opts of None \<Rightarrow> emptySet | Some a \<Rightarrow> a) in
      if shouldStopAtCurrentDepth cfg uid (optCurrentDepth opts) path then (JStar, h0)
      else if uid \<in> h0 ! visited \<and> optCurrentDepth opts > 0 then (JStar, h0)
      else case getModel env uid of
        None \<Rightarrow> (JStar, h0)
      | Some model \<Rightarrow>
         (case newSet h0 (h0 ! visited) of (newVisitedUIDs, h1) \<Rightarrow>
          (case fold (attributeStep_store env cfg uid opts path model newVisitedUIDs)
                  (attributes model) ([], addTo h1 newVisitedUIDs uid) of
            (acc, h') \<Rightarrow> (JObj acc, h')))))"
  unfolding attributeStep_store_def variantsOf_store_def by (rule getDeepPopulate_store.simps)


lemma getDeepPopulate_store_unfold:
  "getDeepPopulate_store env cfg uid opts path h =
     (let h0 = h @ [{}];
          visited = (case visitedUIDs opts of None \<Rightarrow> length h | Some a \<Rightarrow> a)
      in if shouldStopAtCurrentDepth cfg uid (optCurrentDepth opts) path then (JStar, h0)
         else if uid \<in> h0 ! visited \<and> optCurrentDepth opts > 0 then (JStar, h0)
         else case getModel env uid of
           None \<Rightarrow> (JStar, h0)
         | Some model \<Rightarrow>
            (let r = fold (attributeStep_store env cfg uid opts path model (length h0))
                       (attributes model) ([], addTo (h0 @ [h0 ! visited]) (length h0) uid)
             in (JObj (fst r), snd r)))"
  by (simp add: getDeepPopulate_store_expand newSet_def Let_def case_prod_beta
           split: option.splits)

lemma fold_store_prefix:
  fixes f :: "'a \<Rightarrow> 'b \<times> 'c list \<Rightarrow> 'b \<times> 'c list"
  assumes "\<And>x acc s. x \<in> set xs \<Longrightarrow> prefix s (snd (f x (acc, s)))"
  shows "prefix s0 (snd (fold f xs (acc0, s0)))"
  using assms
proof (induction xs arbitrary: acc0 s0)
  case Nil
  then show ?case by simp
next
  case (Cons x xs)
  obtain acc1 s1 where fx: "f x (acc0, s0) = (acc1, s1)" by (cases "f x (acc0, s0)")
  have "prefix s0 (snd (f x (acc0, s0)))" by (rule Cons.prems) simp
  then have "prefix s0 s1" using fx by simp
  moreover have "prefix s1 (snd (fold f xs (acc1, s1)))"
    by (rule Cons.IH) (use Cons.prems in auto)
  ultimately show ?case using fx by (auto intro: prefix_order.trans)
qed

lemma addTo_fresh: "addTo (h @ [s]) (length h) x = h @ [insert x s]"
  by (simp add: addTo_def)

lemma store_frame:
  "prefix h (snd (getDeepPopulate_store env cfg uid opts path h))"
proof (induction env cfg uid opts path h rule: getDeepPopulate_store.induct)
  case (1 env cfg uid opts path h)
  define h0 where "h0 = h @ [{}]"
  define visited where "visited = (case visitedUIDs opts of None \<Rightarrow> length h | Some a \<Rightarrow> a)"
  define nv where "nv = length h0"
  define h1 where "h1 = h0 @ [h0 ! visited]"
  have a0: "(length h, h0) = newSet h {}" by (simp add: newSet_def h0_def)
  have a1: "(nv, h1) = newSet h0 (h0 ! visited)" by (simp add: newSet_def h1_def nv_def)
  have p0: "prefix h h0" by (simp add: h0_def)
  show ?case
  proof (cases "shouldStopAtCurrentDepth cfg uid (optCurrentDepth opts) path
      \<or> (uid \<in> h0 ! visited \<and> optCurrentDepth opts > 0) \<or> getModel env uid = None")
    case True
    then have "snd (getDeepPopulate_store env cfg uid opts path h) = h0"
      using a0 [symmetric]
      by (auto simp: getDeepPopulate_store_expand visited_def Let_def split: option.splits)
    then show ?thesis using p0 by simp
  next
    case False
    then obtain m where m: "getModel env uid = Some m" by auto
    from False have ns: "\<not> shouldStopAtCurrentDepth cfg uid (optCurrentDepth opts) path"
      and nvis: "\<not> (uid \<in> h0 ! visited \<and> optCurrentDepth opts > 0)" by auto
    note IH = "1.IH" [OF a0 visited_def ns nvis m a1]
    have step: "prefix s (snd (attributeStep_store env cfg uid opts path m nv (n, a) (acc, s)))"
      if na: "(n, a) \<in> set (attributes m)" for n a acc s
    proof (cases "excluded cfg uid n \<or> includeOnly cfg path n \<noteq> None")
      case True
      then show ?thesis by (auto simp: attributeStep_store_def)
    next
      case ne: False
      then have ne1: "\<not> excluded cfg uid n" and ne2: "includeOnly cfg path n = None" by auto
      show ?thesis
      proof (cases a)
        case (Relation rel target)
        show ?thesis
        proof (cases "\<not> isMorphRelation rel
            \<and> \<not> (n = CREATED_BY_ATTRIBUTE env \<or> n = UPDATED_BY_ATTRIBUTE env)
            \<and> (isVisibleAttribute env m n
                 \<and> (case relationalFields opts of None \<Rightarrow> True | Some fs \<Rightarrow> n \<in> set fs))
            \<and> (\<exists>t. target = Some t
                 \<and> \<not> shouldStopAtCurrentDepth cfg t (optCurrentDepth opts + 1) (path @ [n])
                 \<and> t \<noteq> [])")
          case True
          then obtain t where nm: "\<not> isMorphRelation rel"
            and np: "\<not> (n = CREATED_BY_ATTRIBUTE env \<or> n = UPDATED_BY_ATTRIBUTE env)"
            and vis: "isVisibleAttribute env m n
                 \<and> (case relationalFields opts of None \<Rightarrow> True | Some fs \<Rightarrow> n \<in> set fs)"
            and t: "target = Some t"
            and nst: "\<not> shouldStopAtCurrentDepth cfg t (optCurrentDepth opts + 1) (path @ [n])"
            and tne: "t \<noteq> []"
            by blast
          have "prefix s (snd (getDeepPopulate_store env cfg t (descend opts nv) (path @ [n]) s))"
            by (rule IH(1) [OF na refl ne1 ne2 Relation nm np vis t nst tne])
          then show ?thesis
            using ne1 ne2 Relation nm np vis t nst tne
            by (simp add: attributeStep_store_def case_prod_beta)
        next
          case False
          then show ?thesis
            using ne1 ne2 Relation
            by (auto simp: attributeStep_store_def split: option.splits)
        qed
      next
        case Media
        then show ?thesis using ne1 ne2 by (simp add: attributeStep_store_def)
      next
        case (Component c)
        show ?thesis
          using ne1 ne2 Component IH(2) [OF na refl ne1 ne2 Component, of s]
          by (auto simp: attributeStep_store_def split: prod.splits)
      next
        case (DynamicZone cs)
        have "prefix s (snd (variantsOf_store env cfg opts path n nv
                 (case cs of None \<Rightarrow> [] | Some cs \<Rightarrow> cs) s))"
          unfolding variantsOf_store_def
        proof (rule fold_store_prefix)
          fix c acc' s'
          assume c: "c \<in> set (case cs of None \<Rightarrow> [] | Some cs \<Rightarrow> cs)"
          show "prefix s' (snd (case (acc', s') of (acc', h) \<Rightarrow>
                   case getDeepPopulate_store env cfg c (descend opts nv) (path @ [n, c]) h of
                     (componentPopulate, h') \<Rightarrow>
                        (js_set acc' c (nestedOrWildcard componentPopulate), h')))"
            using IH(3) [OF na refl ne1 ne2 DynamicZone c, of s']
            by (auto split: prod.splits)
        qed
        then show ?thesis
          using ne1 ne2 DynamicZone by (auto simp: attributeStep_store_def split: prod.splits)
      next
        case (Primitive t)
        then show ?thesis using ne1 ne2 by (simp add: attributeStep_store_def)
      qed
    qed
    have h2: "addTo h1 nv uid = h0 @ [insert uid (h0 ! visited)]"
      unfolding h1_def nv_def by (rule addTo_fresh)
    have "prefix h (addTo h1 nv uid)"
      unfolding h2 using p0 by (rule prefix_prefix)
    moreover have "prefix (addTo h1 nv uid)
            (snd (fold (attributeStep_store env cfg uid opts path m nv) (attributes m)
                    ([], addTo h1 nv uid)))"
      by (rule fold_store_prefix) (use step in auto)
    ultimately have "prefix h (snd (fold (attributeStep_store env cfg uid opts path m nv) (attributes m)
                    ([], addTo h1 nv uid)))"
      by (rule prefix_order.trans)
    then show ?thesis
      using ns nvis m a0 [symmetric] a1 [symmetric]
      by (auto simp: getDeepPopulate_store_expand visited_def Let_def split: prod.splits)
  qed
qed


lemma prefix_nth: "prefix xs ys \<Longrightarrow> i < length xs \<Longrightarrow> ys ! i = xs ! i"
  by (auto simp: prefix_def nth_append)

lemma fold_store_simulation:
  fixes F :: "'a \<Rightarrow> 'b \<times> 'c list \<Rightarrow> 'b \<times> 'c list"
  assumes "prefix base s0"
    and "\<And>x acc s. x \<in> set xs \<Longrightarrow> prefix base s \<Longrightarrow>
           fst (F x (acc, s)) = G x acc \<and> prefix s (snd (F x (acc, s)))"
  shows "fst (fold F xs (acc0, s0)) = fold G xs acc0"
  using assms
proof (induction xs arbitrary: acc0 s0)
  case Nil
  then show ?case by simp
next
  case (Cons x xs)
  obtain acc1 s1 where fx: "F x (acc0, s0) = (acc1, s1)" by (cases "F x (acc0, s0)")
  have "fst (F x (acc0, s0)) = G x acc0 \<and> prefix s0 (snd (F x (acc0, s0)))"
    by (rule Cons.prems(2)) (use Cons.prems(1) in auto)
  then have acc1: "acc1 = G x acc0" and s1: "prefix s0 s1" using fx by auto
  have "prefix base s1" using Cons.prems(1) s1 by (rule prefix_order.trans)
  then have "fst (fold F xs (acc1, s1)) = fold G xs acc1"
    by (rule Cons.IH) (use Cons.prems(2) in auto)
  then show ?case using fx acc1 by simp
qed

lemma readOptions_fields [simp]:
  "optCurrentDepth (readOptions h opts) = optCurrentDepth opts"
  "relationalFields (readOptions h opts) = relationalFields opts"
  by (simp_all add: readOptions_def optCurrentDepth_def)

lemma readOptions_descend:
  "readOptions s (descend opts a) = descend (readOptions h opts) (s ! a)"
  by (simp add: readOptions_def descend_def optMaxDepth_def optCurrentDepth_def)

lemma validOptions_descend: "a < length s \<Longrightarrow> validOptions s (descend opts a)"
  by (simp add: validOptions_def descend_def)

lemma store_simulation:
  assumes "validOptions h opts"
  shows "fst (getDeepPopulate_store env cfg uid opts path h)
       = getDeepPopulate env cfg uid (readOptions h opts) path"
  using assms
proof (induction env cfg uid opts path h rule: getDeepPopulate_store.induct)
  case (1 env cfg uid opts path h)
  note valid = "1.prems"
  define h0 where "h0 = h @ [{}]"
  define visited where "visited = (case visitedUIDs opts of None \<Rightarrow> length h | Some a \<Rightarrow> a)"
  define nv where "nv = length h0"
  define h1 where "h1 = h0 @ [h0 ! visited]"
  define popts where "popts = readOptions h opts"
  define h2 where "h2 = addTo h1 nv uid"
  have a0: "(length h, h0) = newSet h {}" by (simp add: newSet_def h0_def)
  have a1: "(nv, h1) = newSet h0 (h0 ! visited)" by (simp add: newSet_def h1_def nv_def)
  have vis: "h0 ! visited = optVisitedUIDs popts"
    using valid
    by (auto simp: h0_def visited_def popts_def readOptions_def optVisitedUIDs_def validOptions_def
        nth_append split: option.splits)
  have h2: "h2 = h0 @ [insert uid (optVisitedUIDs popts)]"
    unfolding h2_def h1_def nv_def vis [symmetric] by (rule addTo_fresh)
  have nvlt: "nv < length h2" and h2nv: "h2 ! nv = insert uid (optVisitedUIDs popts)"
    by (simp_all add: h2 nv_def)
  show ?case
  proof (cases "shouldStopAtCurrentDepth cfg uid (optCurrentDepth opts) path
      \<or> (uid \<in> h0 ! visited \<and> optCurrentDepth opts > 0) \<or> getModel env uid = None")
    case True
    then have "fst (getDeepPopulate_store env cfg uid opts path h) = JStar"
      using a0 [symmetric]
      by (auto simp: getDeepPopulate_store_expand visited_def Let_def split: option.splits)
    moreover have "getDeepPopulate env cfg uid popts path = JStar"
      using True by (auto simp: getDeepPopulate_expand vis popts_def)
    ultimately show ?thesis by (simp add: popts_def)
  next
    case False
    then obtain m where m: "getModel env uid = Some m" by auto
    from False have ns: "\<not> shouldStopAtCurrentDepth cfg uid (optCurrentDepth opts) path"
      and nvis: "\<not> (uid \<in> h0 ! visited \<and> optCurrentDepth opts > 0)" by auto
    note IH = "1.IH" [OF a0 visited_def ns nvis m a1]
    have callee: "readOptions s (descend opts nv) = descend popts (insert uid (optVisitedUIDs popts))"
      and callee_valid: "validOptions s (descend opts nv)"
      if "prefix h2 s" for s
    proof -
      have "s ! nv = insert uid (optVisitedUIDs popts)"
        using prefix_nth [OF that nvlt] h2nv by simp
      then show "readOptions s (descend opts nv) = descend popts (insert uid (optVisitedUIDs popts))"
        by (simp add: readOptions_descend [where h = h] popts_def)
      have "nv < length s" using that nvlt by (auto simp: prefix_def)
      then show "validOptions s (descend opts nv)" by (rule validOptions_descend)
    qed
    have step: "fst (attributeStep_store env cfg uid opts path m nv (n, a) (acc, s))
                  = attributeStep env cfg uid popts path m (n, a) acc
                \<and> prefix s (snd (attributeStep_store env cfg uid opts path m nv (n, a) (acc, s)))"
      if na: "(n, a) \<in> set (attributes m)" and pre: "prefix h2 s" for n a acc s
    proof (cases "excluded cfg uid n \<or> includeOnly cfg path n \<noteq> None")
      case True
      then show ?thesis by (auto simp: attributeStep_store_def attributeStep_def)
    next
      case ne: False
      then have ne1: "\<not> excluded cfg uid n" and ne2: "includeOnly cfg path n = None" by auto
      show ?thesis
      proof (cases a)
        case (Relation rel target)
        show ?thesis
        proof (cases "\<not> isMorphRelation rel
            \<and> \<not> (n = CREATED_BY_ATTRIBUTE env \<or> n = UPDATED_BY_ATTRIBUTE env)
            \<and> (isVisibleAttribute env m n
                 \<and> (case relationalFields opts of None \<Rightarrow> True | Some fs \<Rightarrow> n \<in> set fs))
            \<and> (\<exists>t. target = Some t
                 \<and> \<not> shouldStopAtCurrentDepth cfg t (optCurrentDepth opts + 1) (path @ [n])
                 \<and> t \<noteq> [])")
          case True
          then obtain t where nm: "\<not> isMorphRelation rel"
            and np: "\<not> (n = CREATED_BY_ATTRIBUTE env \<or> n = UPDATED_BY_ATTRIBUTE env)"
            and vi: "isVisibleAttribute env m n
                 \<and> (case relationalFields opts of None \<Rightarrow> True | Some fs \<Rightarrow> n \<in> set fs)"
            and t: "target = Some t"
            and nst: "\<not> shouldStopAtCurrentDepth cfg t (optCurrentDepth opts + 1) (path @ [n])"
            and tne: "t \<noteq> []"
            by blast
          have "fst (getDeepPopulate_store env cfg t (descend opts nv) (path @ [n]) s)
              = getDeepPopulate env cfg t (descend popts (insert uid (optVisitedUIDs popts))) (path @ [n])"
            using IH(1) [OF na refl ne1 ne2 Relation nm np vi t nst tne callee_valid [OF pre]]
            by (simp add: callee [OF pre])
          then show ?thesis
            using ne1 ne2 Relation nm np vi t nst tne store_frame [of s env cfg t "descend opts nv" "path @ [n]"]
            by (simp add: attributeStep_store_def attributeStep_def case_prod_beta popts_def)
        next
          case False
          then show ?thesis
            using ne1 ne2 Relation
            by (auto simp: attributeStep_store_def attributeStep_def popts_def split: option.splits)
        qed
      next
        case Media
        then show ?thesis using ne1 ne2 by (simp add: attributeStep_store_def attributeStep_def)
      next
        case (Component c)
        have "fst (getDeepPopulate_store env cfg c (descend opts nv) (path @ [n]) s)
            = getDeepPopulate env cfg c (descend popts (insert uid (optVisitedUIDs popts))) (path @ [n])"
          using IH(2) [OF na refl ne1 ne2 Component callee_valid [OF pre]]
          by (simp add: callee [OF pre])
        then show ?thesis
          using ne1 ne2 Component store_frame [of s env cfg c "descend opts nv" "path @ [n]"]
          by (simp add: attributeStep_store_def attributeStep_def case_prod_beta)
      next
        case (DynamicZone cs)
        let ?cs = "case cs of None \<Rightarrow> [] | Some cs \<Rightarrow> cs"
        let ?F = "\<lambda>componentUID (acc', h).
             case getDeepPopulate_store env cfg componentUID
                    (descend opts nv) (path @ [n, componentUID]) h of
               (componentPopulate, h') \<Rightarrow>
                 (js_set acc' componentUID (nestedOrWildcard componentPopulate), h')"
        let ?G = "\<lambda>componentUID acc'.
             js_set acc' componentUID (nestedOrWildcard
               (getDeepPopulate env cfg componentUID
                  (descend popts (insert uid (optVisitedUIDs popts)))
                  (path @ [n, componentUID])))"
        have one: "fst (?F c (acc', s')) = ?G c acc' \<and> prefix s' (snd (?F c (acc', s')))"
          if c: "c \<in> set ?cs" and pre': "prefix s s'" for c acc' s'
        proof -
          have p2: "prefix h2 s'" using pre pre' by (rule prefix_order.trans)
          have "fst (getDeepPopulate_store env cfg c (descend opts nv) (path @ [n, c]) s')
              = getDeepPopulate env cfg c (descend popts (insert uid (optVisitedUIDs popts)))
                  (path @ [n, c])"
            using IH(3) [OF na refl ne1 ne2 DynamicZone c callee_valid [OF p2]]
            by (simp add: callee [OF p2])
          then show ?thesis
            using store_frame [of s' env cfg c "descend opts nv" "path @ [n, c]"]
            by (simp add: case_prod_beta)
        qed
        have vs: "fst (variantsOf_store env cfg opts path n nv ?cs s)
                = variantsOf env cfg uid popts path n ?cs"
          unfolding variantsOf_store_def variantsOf_def
          by (rule fold_store_simulation [where base = s]) (use one in auto)
        have vp: "prefix s (snd (variantsOf_store env cfg opts path n nv ?cs s))"
          unfolding variantsOf_store_def
          by (rule fold_store_prefix) (use store_frame in \<open>auto simp: case_prod_beta\<close>)
        show ?thesis
          using ne1 ne2 DynamicZone vs vp
          by (simp add: attributeStep_store_def attributeStep_def case_prod_beta)
      next
        case (Primitive t)
        then show ?thesis using ne1 ne2 by (simp add: attributeStep_store_def attributeStep_def)
      qed
    qed
    have "fst (fold (attributeStep_store env cfg uid opts path m nv) (attributes m) ([], h2))
        = fold (attributeStep env cfg uid popts path m) (attributes m) []"
      by (rule fold_store_simulation [where base = h2]) (use step in auto)
    then have "fst (getDeepPopulate_store env cfg uid opts path h)
        = JObj (fold (attributeStep env cfg uid popts path m) (attributes m) [])"
      using ns nvis m
      by (simp add: getDeepPopulate_store_unfold Let_def h2_def h1_def nv_def h0_def visited_def)
    moreover have "getDeepPopulate env cfg uid popts path
        = JObj (fold (attributeStep env cfg uid popts path m) (attributes m) [])"
      using ns nvis m by (auto simp: getDeepPopulate_expand vis popts_def)
    ultimately show ?thesis by (simp add: popts_def)
  qed
qed


text \<open>
  Claim C8. In the store version, where \<^verbatim>\<open>visitedUIDs\<close> is the address of a \<^verbatim>\<open>Set\<close> object
  that \<^verbatim>\<open>add\<close> changes in place, a call of the builder only appends objects to the store:
  every object that existed before the call, the caller's visited set among them, holds the
  same elements after it, because the type identifier is added to the copy allocated by
  \<^verbatim>\<open>new Set(options.visitedUIDs)\<close>. So the copy that a call hands to its recursive calls
  still holds the visited set of the branch plus the type of the call when the next sibling
  starts, and the directive is the one of the value version, in which every recursive call is
  given \<open>insert uid visited\<close> of its own ancestors and nothing from its siblings.
\<close>

theorem visited_set_unchanged:
  "prefix h (snd (getDeepPopulate_store env cfg uid opts path h))
   \<and> (\<forall>a < length h. snd (getDeepPopulate_store env cfg uid opts path h) ! a = h ! a)
   \<and> (validOptions h opts \<longrightarrow>
        fst (getDeepPopulate_store env cfg uid opts path h)
          = getDeepPopulate env cfg uid (readOptions h opts) path)"
  using store_frame [of h env cfg uid opts path] store_simulation [of h opts env cfg uid path]
  by (auto simp: prefix_nth)

theorem visited_set_unchanged_witness:
  "validOptions [{''api::user.user''}] (defaults\<lparr>visitedUIDs := Some 0\<rparr>)
   \<and> snd (getDeepPopulate_store demoEnv DEPTH_CONFIG ''api::article.article''
            (defaults\<lparr>visitedUIDs := Some 0\<rparr>) [] [{''api::user.user''}]) ! 0
       = {''api::user.user''}
   \<and> fst (getDeepPopulate_store demoEnv DEPTH_CONFIG ''api::article.article''
            (defaults\<lparr>visitedUIDs := Some 0\<rparr>) [] [{''api::user.user''}])
       = getDeepPopulate demoEnv DEPTH_CONFIG ''api::article.article''
           (readOptions [{''api::user.user''}] (defaults\<lparr>visitedUIDs := Some 0\<rparr>)) []"
proof -
  have valid: "validOptions [{''api::user.user''}] (defaults\<lparr>visitedUIDs := Some 0\<rparr>)"
    by (simp add: validOptions_def)
  note T = visited_set_unchanged [of "[{''api::user.user''}]" demoEnv DEPTH_CONFIG
      "''api::article.article''" "defaults\<lparr>visitedUIDs := Some 0\<rparr>" "[]"]
  from T have "\<forall>a < length [{''api::user.user''}].
      snd (getDeepPopulate_store demoEnv DEPTH_CONFIG ''api::article.article''
            (defaults\<lparr>visitedUIDs := Some 0\<rparr>) [] [{''api::user.user''}]) ! a
       = [{''api::user.user''}] ! a"
    by (elim conjE)
  then have same: "snd (getDeepPopulate_store demoEnv DEPTH_CONFIG ''api::article.article''
            (defaults\<lparr>visitedUIDs := Some 0\<rparr>) [] [{''api::user.user''}]) ! 0
       = {''api::user.user''}"
    by simp
  from T valid have sim: "fst (getDeepPopulate_store demoEnv DEPTH_CONFIG ''api::article.article''
            (defaults\<lparr>visitedUIDs := Some 0\<rparr>) [] [{''api::user.user''}])
       = getDeepPopulate demoEnv DEPTH_CONFIG ''api::article.article''
           (readOptions [{''api::user.user''}] (defaults\<lparr>visitedUIDs := Some 0\<rparr>)) []"
    by blast
  show ?thesis by (intro conjI valid same sim)
qed

end
